theory Spec2Isabelle
  imports
    Main
    "HOL-Library.Multiset"
    "HOL-Library.Product_Lexorder"
    "HOL-Library.Char_ord"
    "HOL-Library.List_Lexorder"
begin

section \<open>Data model (timeline\_core.py)\<close>

text \<open>
  A Python \<open>datetime\<close> is modelled by the number of microseconds since
  0001-01-01T00:00:00, an \<open>int\<close>; comparison of datetimes is comparison of these
  numbers and \<open>timedelta(days=1)\<close> is 86400000000 microseconds.
  \<open>datetime.max\<close> is 9999-12-31T23:59:59.999999; an addition whose result lies after it
  raises \<open>OverflowError\<close>, and so does the conversion of an instant that does not fit the
  64-bit count of nanoseconds of a \<open>pandas.Timestamp\<close>. An exception is the left summand of
  a result.
\<close>

type_synonym datetime = int

definition microseconds_per_day :: int where
  "microseconds_per_day = 86400000000"

definition timedelta_days :: "int \<Rightarrow> int" where
  "timedelta_days n = n * microseconds_per_day"

definition datetime_max :: datetime where
  "datetime_max = 3652059 * microseconds_per_day - 1"

datatype error = ValueError string | OverflowError

record TimelineEvent =
  event_id :: int
  description :: string
  entities :: "string list"
  date_label :: string
  time_label :: string
  start_dt :: "datetime option"
  end_dt :: "datetime option"
  certain :: bool
  verified :: bool
  sources :: "string list"

text \<open>
  \<open>normalize_end_dt\<close>: the sum \<open>end_dt + timedelta(days=1)\<close> is a datetime only up to
  \<open>datetime.max\<close>; beyond it the addition raises.
\<close>

definition normalize_end_dt ::
  "datetime option \<Rightarrow> datetime option \<Rightarrow> error + datetime option" where
  "normalize_end_dt s e =
     (if s = None \<or> e = None then Inr e
      else if the e < the s
           then (if the e + timedelta_days 1 \<le> datetime_max
                 then Inr (Some (the e + timedelta_days 1))
                 else Inl OverflowError)
      else Inr e)"

definition is_range :: "TimelineEvent \<Rightarrow> bool" where
  "is_range event \<longleftrightarrow>
     start_dt event \<noteq> None \<and> end_dt event \<noteq> None \<and> end_dt event \<noteq> start_dt event"

definition overlaps :: "datetime \<Rightarrow> datetime \<Rightarrow> datetime \<Rightarrow> datetime \<Rightarrow> bool" where
  "overlaps a_start a_end b_start b_end \<longleftrightarrow> a_start \<le> b_end \<and> b_start \<le> a_end"

definition effective_end_dt :: "TimelineEvent \<Rightarrow> datetime" where
  "effective_end_dt event =
     (if start_dt event = None then datetime_max
      else if end_dt event = None then the (start_dt event)
      else the (end_dt event))"

text \<open>
  The effective end as the specification words it: the end if present, else the start.
  It is a second definition, kept apart from \<open>effective_end_dt\<close>, for comparison.
\<close>

definition spec_effective_end :: "TimelineEvent \<Rightarrow> datetime option" where
  "spec_effective_end event = (case end_dt event of Some e \<Rightarrow> Some e | None \<Rightarrow> start_dt event)"

text \<open>
  \<open>sorted_events\<close>: Python's \<open>sorted\<close> is a stable sort by the key, and tuples
  compare lexicographically with \<open>False < True\<close>; \<open>sort_key\<close> is a stable
  insertion sort and the product order is the lexicographic one.
\<close>

definition sort_key_core :: "TimelineEvent \<Rightarrow> bool \<times> datetime \<times> bool \<times> int" where
  "sort_key_core event =
     (start_dt event = None,
      (case start_dt event of None \<Rightarrow> datetime_max | Some s \<Rightarrow> s),
      \<not> is_range event,
      event_id event)"

definition sorted_events :: "TimelineEvent list \<Rightarrow> TimelineEvent list" where
  "sorted_events events = sort_key sort_key_core events"

definition estimate_card_width :: "string \<Rightarrow> bool \<Rightarrow> int" where
  "estimate_card_width text is_range_event =
     (let base_width = 140 + int (length text) * 5;
          min_width = 180;
          max_width = 320;
          width = max min_width (min base_width max_width)
      in if \<not> is_range_event then width else max width min_width)"

subsection \<open>Reading rows\<close>

text \<open>
  A spreadsheet row after the cell-level parsing of pandas: the date cell is the day number
  of the normalised date (\<open>None\<close> when the cell is missing or unparseable); a time cell is
  missing, present but unparseable (the date's midnight is used), or a time of day in
  microseconds. The textual cells are taken as already split and formatted.
\<close>

datatype time_cell = TimeMissing | TimeUnparseable | TimeOfDay int

record raw_row =
  datum :: "int option"
  starttijd :: time_cell
  eindtijd :: time_cell
  row_date_label :: string
  row_description :: string
  row_entities :: "string list"
  row_certain :: bool
  row_verified :: bool
  row_sources :: "string list"

definition parse_date_time :: "int option \<Rightarrow> time_cell \<Rightarrow> datetime option" where
  "parse_date_time date_value time_value =
     (case date_value of
        None \<Rightarrow> None
      | Some d \<Rightarrow>
          (case time_value of
             TimeOfDay t \<Rightarrow> Some (d * microseconds_per_day + t)
           | _ \<Rightarrow> Some (d * microseconds_per_day)))"

definition two_digits :: "int \<Rightarrow> string" where
  "two_digits n = [char_of (48 + n div 10 mod 10), char_of (48 + n mod 10)]"

definition strftime_HM :: "datetime \<Rightarrow> string" where
  "strftime_HM t =
     (let tod = t mod microseconds_per_day
      in two_digits (tod div 3600000000) @ '':'' @ two_digits (tod div 60000000 mod 60))"

definition format_time_label :: "datetime option \<Rightarrow> datetime option \<Rightarrow> string" where
  "format_time_label s e =
     (case s of
        None \<Rightarrow> ''Onbekende tijd''
      | Some sv \<Rightarrow>
          (if e = None \<or> e = s then strftime_HM sv
           else strftime_HM sv @ '' - '' @ strftime_HM (the e)))"

text \<open>
  The body of the loop of \<open>read_events_from_excel\<close> for the row with index \<open>idx\<close>; an
  exception of \<open>normalize_end_dt\<close> leaves the loop and the function.
\<close>

definition make_event :: "nat \<Rightarrow> raw_row \<Rightarrow> error + TimelineEvent" where
  "make_event idx row =
     (let s = parse_date_time (datum row) (starttijd row);
          e0 = (if eindtijd row \<noteq> TimeMissing then parse_date_time (datum row) (eindtijd row)
                else None)
      in case normalize_end_dt s e0 of
           Inl err \<Rightarrow> Inl err
         | Inr e \<Rightarrow>
             Inr \<lparr> event_id = int idx,
                   description = row_description row,
                   entities = row_entities row,
                   date_label = row_date_label row,
                   time_label = format_time_label s e,
                   start_dt = s,
                   end_dt = (if s \<noteq> None \<and> e \<noteq> None then e else None),
                   certain = row_certain row,
                   verified = row_verified row,
                   sources = row_sources row \<rparr>)"

fun read_rows :: "nat \<Rightarrow> raw_row list \<Rightarrow> error + TimelineEvent list" where
  "read_rows idx [] = Inr []"
| "read_rows idx (row # rows) =
     (case make_event idx row of
        Inl err \<Rightarrow> Inl err
      | Inr event \<Rightarrow>
          (case read_rows (Suc idx) rows of
             Inl err \<Rightarrow> Inl err
           | Inr events \<Rightarrow> Inr (event # events)))"

definition read_events_from_excel :: "raw_row list \<Rightarrow> error + TimelineEvent list" where
  "read_events_from_excel rows = read_rows 0 rows"

definition group_events_by_entity :: "TimelineEvent list \<Rightarrow> string \<Rightarrow> TimelineEvent list" where
  "group_events_by_entity events entity =
     concat (map (\<lambda>event. map (\<lambda>_. event) (filter (\<lambda>x. x = entity) (entities event))) events)"

section \<open>Horizontal layout (timeline\_horizontal.py)\<close>

definition gap :: int where
  "gap = 24"

text \<open>
  The global order of the x axis: \<open>(e.start_dt, e.end_dt is None, e.event_id)\<close> over the
  events that have a start.
\<close>

definition slot_sort_key :: "TimelineEvent \<Rightarrow> datetime \<times> bool \<times> int" where
  "slot_sort_key e = (the (start_dt e), end_dt e = None, event_id e)"

definition timed_events :: "TimelineEvent list \<Rightarrow> TimelineEvent list" where
  "timed_events events = sort_key slot_sort_key (filter (\<lambda>e. start_dt e \<noteq> None) events)"

text \<open>The dict \<open>slot_of\<close>: a later event with the same id overwrites an earlier one.\<close>

definition slot_of :: "TimelineEvent list \<Rightarrow> (int \<rightharpoonup> nat)" where
  "slot_of event_at_slot =
     fold (\<lambda>(s, e) m. m(event_id e \<mapsto> s)) (enumerate 0 event_at_slot) Map.empty"

definition card_text :: "TimelineEvent \<Rightarrow> string" where
  "card_text e = date_label e @ '' '' @ time_label e @ '' '' @ description e"

definition slot_width :: "TimelineEvent list \<Rightarrow> int list" where
  "slot_width event_at_slot =
     map (\<lambda>e. estimate_card_width (card_text e) (is_range e)) event_at_slot"

text \<open>The packing loop: \<open>x_start[i] = x; x += slot_width[i] + gap\<close>.\<close>

fun pack_from :: "int \<Rightarrow> int list \<Rightarrow> int list" where
  "pack_from x [] = []"
| "pack_from x (w # ws) = x # pack_from (x + w + gap) ws"

definition x_start :: "TimelineEvent list \<Rightarrow> int list" where
  "x_start event_at_slot = pack_from 0 (slot_width event_at_slot)"

text \<open>The inner scan of a range \<open>r\<close> over all slots, starting from its own slot.\<close>

definition max_slot_of :: "TimelineEvent list \<Rightarrow> TimelineEvent \<Rightarrow> nat" where
  "max_slot_of event_at_slot r =
     fold (\<lambda>e max_slot.
             if start_dt e = None then max_slot
             else if the (start_dt r) \<le> the (start_dt e) \<and> the (start_dt e) \<le> the (end_dt r)
                  then max max_slot (the (slot_of event_at_slot (event_id e)))
                  else max_slot)
          event_at_slot (the (slot_of event_at_slot (event_id r)))"

definition range_max_slot :: "TimelineEvent list \<Rightarrow> (int \<rightharpoonup> nat)" where
  "range_max_slot event_at_slot =
     fold (\<lambda>r m. m(event_id r \<mapsto> max_slot_of event_at_slot r))
          (filter is_range event_at_slot) Map.empty"

definition event_x :: "TimelineEvent list \<Rightarrow> (int \<rightharpoonup> int)" where
  "event_x event_at_slot =
     fold (\<lambda>e m. m(event_id e \<mapsto> x_start event_at_slot ! the (slot_of event_at_slot (event_id e))))
          event_at_slot Map.empty"

definition final_width :: "TimelineEvent list \<Rightarrow> TimelineEvent \<Rightarrow> int" where
  "final_width event_at_slot e =
     (let s = the (slot_of event_at_slot (event_id e));
          w = slot_width event_at_slot ! s
      in if is_range e
         then (let last_slot = the (range_max_slot event_at_slot (event_id e));
                   right_edge = x_start event_at_slot ! last_slot
                                + slot_width event_at_slot ! last_slot
               in max w (right_edge - x_start event_at_slot ! s))
         else w)"

definition event_w :: "TimelineEvent list \<Rightarrow> (int \<rightharpoonup> int)" where
  "event_w event_at_slot =
     fold (\<lambda>e m. m(event_id e \<mapsto> final_width event_at_slot e)) event_at_slot Map.empty"

subsection \<open>Per-entity stacking\<close>

record card =
  card_event :: TimelineEvent
  card_x :: int
  card_width :: int
  card_is_range :: bool
  card_end_dt :: datetime

definition make_card :: "(int \<rightharpoonup> int) \<Rightarrow> (int \<rightharpoonup> int) \<Rightarrow> TimelineEvent \<Rightarrow> card" where
  "make_card ex ew event =
     \<lparr> card_event = event,
       card_x = (case ex (event_id event) of Some x \<Rightarrow> x | None \<Rightarrow> 0),
       card_width = (case ew (event_id event) of
                       Some w \<Rightarrow> w
                     | None \<Rightarrow> estimate_card_width (card_text event) (is_range event)),
       card_is_range = is_range event,
       card_end_dt = (case end_dt event of Some e \<Rightarrow> e | None \<Rightarrow> the (start_dt event)) \<rparr>"

text \<open>
  The test that makes the loop skip a subrow: the subrow has a last card, both starts are
  present, and the new event overlaps that last card.
\<close>

definition blocked :: "TimelineEvent \<Rightarrow> card list \<Rightarrow> bool" where
  "blocked event subrow \<longleftrightarrow>
     subrow \<noteq> [] \<and> start_dt event \<noteq> None \<and> start_dt (card_event (last subrow)) \<noteq> None \<and>
     (let last_start = the (start_dt (card_event (last subrow)));
          last_end = card_end_dt (last subrow);
          this_start = the (start_dt event);
          this_end = (case end_dt event of Some e \<Rightarrow> e | None \<Rightarrow> the (start_dt event))
      in overlaps this_start this_end last_start last_end)"

fun place :: "card \<Rightarrow> card list list \<Rightarrow> card list list" where
  "place c [] = [[c]]"
| "place c (subrow # subrows) =
     (if blocked (card_event c) subrow then subrow # place c subrows
      else (subrow @ [c]) # subrows)"

text \<open>One turn of the loop over \<open>sorted_events(entity_list)\<close>.\<close>

definition stack_step ::
  "(int \<rightharpoonup> int) \<Rightarrow> (int \<rightharpoonup> int) \<Rightarrow> TimelineEvent \<Rightarrow> card list list \<Rightarrow> card list list" where
  "stack_step ex ew event subrows =
     (if start_dt event = None then subrows
      else place (make_card ex ew event) subrows)"

definition stack_events ::
  "(int \<rightharpoonup> int) \<Rightarrow> (int \<rightharpoonup> int) \<Rightarrow> TimelineEvent list \<Rightarrow> card list list" where
  "stack_events ex ew entity_list = fold (stack_step ex ew) (sorted_events entity_list) []"

definition entity_subrows ::
  "(int \<rightharpoonup> int) \<Rightarrow> (int \<rightharpoonup> int) \<Rightarrow> TimelineEvent list \<Rightarrow> card list list" where
  "entity_subrows ex ew entity_list = map (sort_key card_x) (stack_events ex ew entity_list)"

record horizontal_geometry =
  geo_slot_of :: "int \<rightharpoonup> nat"
  geo_event_x :: "int \<rightharpoonup> int"
  geo_event_w :: "int \<rightharpoonup> int"
  geo_max_width :: int
  geo_layout :: "string \<rightharpoonup> card list list"

text \<open>
  The layout part of \<open>generate_horizontal_timeline\<close>, from the list of events that
  \<open>read_events_from_excel\<close> returned. The dict \<open>layout\<close> has one key per entity of
  \<open>entity_events\<close>, that is, per entity with a non-empty event list.
\<close>

definition horizontal_layout :: "TimelineEvent list \<Rightarrow> error + horizontal_geometry" where
  "horizontal_layout events =
     (let entity_events = group_events_by_entity events;
          event_at_slot = timed_events events
      in if event_at_slot = []
         then Inl (ValueError ''No events with a valid start time were found.'')
         else Inr \<lparr> geo_slot_of = slot_of event_at_slot,
                    geo_event_x = event_x event_at_slot,
                    geo_event_w = event_w event_at_slot,
                    geo_max_width = last (x_start event_at_slot) + last (slot_width event_at_slot),
                    geo_layout = (\<lambda>entity.
                       if entity_events entity = [] then None
                       else Some (entity_subrows (event_x event_at_slot) (event_w event_at_slot)
                                    (entity_events entity))) \<rparr>)"

definition generate_horizontal_timeline :: "raw_row list \<Rightarrow> error + horizontal_geometry" where
  "generate_horizontal_timeline rows =
     (case read_events_from_excel rows of
        Inl err \<Rightarrow> Inl err
      | Inr events \<Rightarrow> horizontal_layout events)"

section \<open>Colour assignment (timeline\_core.py)\<close>

text \<open>
  \<open>str.casefold\<close> is a function of the Python library, defined by the case-folding table
  of Unicode; \<open>build_entity_colors\<close> uses it as the sort key only. It is the parameter
  \<open>casefold\<close> of the definitions below, an arbitrary function from strings to strings, so
  that what is proved holds for the function of the library. A string of the model is the
  list of the bytes of the UTF-8 encoding of the Python string; the lexicographic order of
  these lists is the order of Python's strings, which compares code points.
\<close>

text \<open>
  The loop that keeps the first occurrence of every element; the set \<open>seen\<close> of the
  source always holds the elements of \<open>ordered\<close>.
\<close>

definition keep_first :: "'a list \<Rightarrow> 'a list" where
  "keep_first xs = fold (\<lambda>x ordered. if x \<in> set ordered then ordered else ordered @ [x]) xs []"

fun str_nat :: "nat \<Rightarrow> string" where
  "str_nat n = (if n < 10 then [char_of (48 + n)] else str_nat (n div 10) @ [char_of (48 + n mod 10)])"

declare str_nat.simps [simp del]

text \<open>
  \<open>int((base_hue + index * golden_angle) % 360)\<close> with \<open>base_hue = 24.0\<close> and
  \<open>golden_angle = 137.508\<close>, computed exactly in thousandths of a degree; the rounding of
  the binary floating-point product is not part of the model.
\<close>

definition hue_of_index :: "nat \<Rightarrow> nat" where
  "hue_of_index index = ((24000 + index * 137508) mod 360000) div 1000"

definition hsl_color :: "nat \<Rightarrow> string" where
  "hsl_color hue = ''hsl('' @ str_nat hue @ '', 60%, 68%)''"

definition ordered_entities :: "(string \<Rightarrow> string) \<Rightarrow> string list \<Rightarrow> string list" where
  "ordered_entities casefold entities_in = keep_first (sort_key casefold entities_in)"

definition build_entity_colors ::
  "(string \<Rightarrow> string) \<Rightarrow> string list \<Rightarrow> (string \<rightharpoonup> string)" where
  "build_entity_colors casefold entities_in =
     fold (\<lambda>(index, entity) colors. colors(entity \<mapsto> hsl_color (hue_of_index index)))
          (enumerate 0 (ordered_entities casefold entities_in)) Map.empty"

text \<open>
  On a string of ASCII characters \<open>str.casefold\<close> maps the letters A to Z to a to z and
  keeps every other character. \<open>ascii_casefold\<close> is that function; it stands for
  \<open>str.casefold\<close> in the concrete instances, whose names are ASCII.
\<close>

definition ascii_casefold_char :: "char \<Rightarrow> char" where
  "ascii_casefold_char c =
     (let n = (of_char c :: nat) in if 65 \<le> n \<and> n \<le> 90 then char_of (n + 32) else c)"

definition ascii_casefold :: "string \<Rightarrow> string" where
  "ascii_casefold s = map ascii_casefold_char s"

section \<open>Vertical layout (timeline\_vertical.py)\<close>

subsection \<open>The payload built in Python\<close>

text \<open>
  \<open>timeline_vertical.py\<close> reads the rows itself; it does not call \<open>normalize_end_dt\<close>.
\<close>

definition vertical_make_event :: "nat \<Rightarrow> raw_row \<Rightarrow> TimelineEvent" where
  "vertical_make_event idx row =
     (let s = parse_date_time (datum row) (starttijd row);
          e = (if eindtijd row \<noteq> TimeMissing then parse_date_time (datum row) (eindtijd row)
               else None)
      in \<lparr> event_id = int idx,
           description = row_description row,
           entities = row_entities row,
           date_label = row_date_label row,
           time_label = format_time_label s e,
           start_dt = s,
           end_dt = (if s \<noteq> None \<and> e \<noteq> None then e else None),
           certain = row_certain row,
           verified = row_verified row,
           sources = [] \<rparr>)"

record js_event =
  js_id :: string
  js_entities :: "string list"
  js_start_ms :: int
  js_end_ms :: int
  js_is_range :: bool

text \<open>
  \<open>int(pd.Timestamp(dt).value // 1_000_000)\<close>: \<open>value\<close> is the number of nanoseconds
  since 1970-01-01, which is day 719162 of the model's count, as a signed 64-bit integer
  (whose least value stands for \<open>NaT\<close>); an instant outside that range (before 1677-09-21
  or after 2262-04-11) raises. The floor division gives milliseconds.
\<close>

definition timestamp_ms :: "datetime \<Rightarrow> error + int" where
  "timestamp_ms t =
     (let v = (t - 719162 * microseconds_per_day) * 1000
      in if - 9223372036854775808 < v \<and> v < 9223372036854775808 then Inr (v div 1000000)
         else Inl OverflowError)"

text \<open>
  The dict of one event: \<open>start_ms\<close> is computed before \<open>end_ms\<close>. The loop over
  \<open>base_events\<close> skips the events without a start and is left by an exception.
\<close>

definition payload_event :: "TimelineEvent \<Rightarrow> error + js_event" where
  "payload_event e =
     (case timestamp_ms (the (start_dt e)) of
        Inl err \<Rightarrow> Inl err
      | Inr start_ms \<Rightarrow>
          (case (case end_dt e of Some t \<Rightarrow> timestamp_ms t
                 | None \<Rightarrow> timestamp_ms (the (start_dt e))) of
             Inl err \<Rightarrow> Inl err
           | Inr end_ms \<Rightarrow>
               Inr \<lparr> js_id = str_nat (nat (event_id e)),
                     js_entities = entities e,
                     js_start_ms = start_ms,
                     js_end_ms = end_ms,
                     js_is_range = is_range e \<rparr>))"

fun payload_loop :: "TimelineEvent list \<Rightarrow> error + js_event list" where
  "payload_loop [] = Inr []"
| "payload_loop (e # base_events) =
     (if start_dt e = None then payload_loop base_events
      else (case payload_event e of
              Inl err \<Rightarrow> Inl err
            | Inr p \<Rightarrow>
                (case payload_loop base_events of
                   Inl err \<Rightarrow> Inl err
                 | Inr ps \<Rightarrow> Inr (p # ps))))"

definition events_payload :: "raw_row list \<Rightarrow> error + js_event list" where
  "events_payload rows =
     payload_loop (map (\<lambda>(idx, row). vertical_make_event idx row) (enumerate 0 rows))"

subsection \<open>The layout function of the page script\<close>

record config =
  rowH :: int
  rowGap :: int
  gapX :: int
  wrapColW :: int
  subcolW :: int
  maxSubcols :: int

text \<open>The values of the style sheet of the generated page.\<close>

definition cfg :: config where
  "cfg = \<lparr> rowH = 98, rowGap = 12, gapX = 20, wrapColW = 240, subcolW = 340, maxSubcols = 4 \<rparr>"

text \<open>
  The comparator of \<open>evs\<close>: start, then ranges first, then the id strings (compared
  character by character); \<open>Array.prototype.sort\<close> is stable.
\<close>

definition evs_key :: "js_event \<Rightarrow> int \<times> bool \<times> string" where
  "evs_key e = (js_start_ms e, \<not> js_is_range e, js_id e)"

definition sorted_evs :: "js_event list \<Rightarrow> js_event list" where
  "sorted_evs events = sort_key evs_key events"

definition uniqueStarts :: "js_event list \<Rightarrow> int list" where
  "uniqueStarts evs = sort (keep_first (map js_start_ms evs))"

definition slotOfId :: "int list \<Rightarrow> (int \<rightharpoonup> nat)" where
  "slotOfId starts = fold (\<lambda>(idx, s) m. m(s \<mapsto> idx)) (enumerate 0 starts) Map.empty"

definition slot_of_event :: "js_event list \<Rightarrow> js_event \<Rightarrow> nat" where
  "slot_of_event evs e = the (slotOfId (uniqueStarts evs) (js_start_ms e))"

definition maxSlot :: "js_event list \<Rightarrow> js_event \<Rightarrow> nat" where
  "maxSlot evs r =
     fold (\<lambda>e m. if js_start_ms e \<ge> js_start_ms r \<and> js_start_ms e \<le> js_end_ms r
                  then (if slot_of_event evs e > m then slot_of_event evs e else m)
                  else m)
          evs (slot_of_event evs r)"

text \<open>
  The greedy assignment of wrapper columns: \<open>colEnd\<close> holds the tracked end of every
  column, and each range is recorded with the column it received (\<open>r._wrapCol\<close>).
\<close>

fun first_free :: "int \<Rightarrow> int list \<Rightarrow> nat option" where
  "first_free s [] = None"
| "first_free s (c # cs) = (if s > c then Some 0 else map_option Suc (first_free s cs))"

definition assign_column ::
  "js_event \<Rightarrow> int list \<times> (js_event \<times> nat) list \<Rightarrow> int list \<times> (js_event \<times> nat) list" where
  "assign_column r st =
     (case st of (colEnd, placed) \<Rightarrow>
        (case first_free (js_start_ms r) colEnd of
           None \<Rightarrow> (colEnd @ [js_end_ms r], placed @ [(r, length colEnd)])
         | Some col \<Rightarrow> (colEnd[col := max (colEnd ! col) (js_end_ms r)], placed @ [(r, col)])))"

definition ranges_key :: "js_event \<Rightarrow> int \<times> int" where
  "ranges_key r = (js_start_ms r, js_end_ms r)"

definition wrap_columns :: "js_event list \<Rightarrow> int list \<times> (js_event \<times> nat) list" where
  "wrap_columns ranges = fold assign_column (sort_key ranges_key ranges) ([], [])"

definition normalByStart :: "js_event list \<Rightarrow> int \<Rightarrow> js_event list" where
  "normalByStart evs start =
     sort_key js_id (filter (\<lambda>e. \<not> js_is_range e \<and> js_start_ms e = start) evs)"

definition headerH :: int where "headerH = 34"
definition itemH :: int where "itemH = 76"
definition itemGap :: int where "itemGap = 10"
definition padH :: int where "padH = 20"

definition slotH :: "config \<Rightarrow> js_event list \<Rightarrow> int list" where
  "slotH c evs =
     map (\<lambda>start.
            (let n = int (length (normalByStart evs start))
             in if n > 0
                then max (rowH c) (headerH + padH + (n * itemH) + ((n - 1) * itemGap))
                else rowH c))
         (uniqueStarts evs)"

fun y_bounds :: "int \<Rightarrow> int \<Rightarrow> int list \<Rightarrow> (int \<times> int) list" where
  "y_bounds row_gap yCursor [] = []"
| "y_bounds row_gap yCursor (h # hs) =
     (yCursor, yCursor + h) # y_bounds row_gap (yCursor + h + row_gap) hs"

definition yStart :: "config \<Rightarrow> js_event list \<Rightarrow> int list" where
  "yStart c evs = map fst (y_bounds (rowGap c) 0 (slotH c evs))"

definition yEnd :: "config \<Rightarrow> js_event list \<Rightarrow> int list" where
  "yEnd c evs = map snd (y_bounds (rowGap c) 0 (slotH c evs))"

datatype positioned =
  Range js_event int int int int
| Stack int "js_event list" int int int int

text \<open>
  The parts of \<open>layout\<close>, each over the sorted list \<open>evs\<close>: the number of wrapper
  columns and the width of their area, the boxes of the ranges, the stacked boxes of the
  point events (one per start that has any), and the total height.
\<close>

definition wrapCols :: "js_event list \<Rightarrow> int" where
  "wrapCols evs = max 1 (int (length (fst (wrap_columns (filter js_is_range evs)))))"

definition wrapArea :: "config \<Rightarrow> js_event list \<Rightarrow> int" where
  "wrapArea c evs = wrapCols evs * wrapColW c + (wrapCols evs - 1) * gapX c"

definition range_boxes :: "config \<Rightarrow> js_event list \<Rightarrow> positioned list" where
  "range_boxes c evs =
     map (\<lambda>r. let y0 = yStart c evs ! slot_of_event evs r;
                    y1 = yEnd c evs ! maxSlot evs r;
                    col = (case map_of (snd (wrap_columns (filter js_is_range evs))) r of
                             Some k \<Rightarrow> int k | None \<Rightarrow> 0)
                in Range r (col * (wrapColW c + gapX c)) y0 (wrapColW c) (max (rowH c) (y1 - y0)))
         (filter js_is_range evs)"

definition stack_box :: "config \<Rightarrow> js_event list \<Rightarrow> int \<Rightarrow> positioned list" where
  "stack_box c evs start =
     (let arr = normalByStart evs start;
          slot = the (slotOfId (uniqueStarts evs) start)
      in if arr = [] then []
         else [Stack start arr (wrapArea c evs + gapX c) (yStart c evs ! slot)
                 (subcolW c * maxSubcols c + gapX c * (maxSubcols c - 1))
                 (slotH c evs ! slot)])"

definition stack_boxes :: "config \<Rightarrow> js_event list \<Rightarrow> positioned list" where
  "stack_boxes c evs = concat (map (stack_box c evs) (uniqueStarts evs))"

definition totalH :: "config \<Rightarrow> js_event list \<Rightarrow> int" where
  "totalH c evs = (if yEnd c evs = [] then 400 else last (yEnd c evs) + 40)"

definition layout :: "config \<Rightarrow> js_event list \<Rightarrow> positioned list \<times> int \<times> int" where
  "layout c events =
     (let evs = sorted_evs events
      in (range_boxes c evs @ stack_boxes c evs, totalH c evs, wrapArea c evs))"

text \<open>The start of a stacked box.\<close>

fun stack_start :: "positioned \<Rightarrow> int option" where
  "stack_start (Range r x y w h) = None"
| "stack_start (Stack start items x y w h) = Some start"

text \<open>
  The number of ranges open at an instant, and its maximum over all instants; the maximum
  is reached at the start of some range.
\<close>

definition open_at :: "js_event list \<Rightarrow> int \<Rightarrow> nat" where
  "open_at ranges t = length (filter (\<lambda>r. js_start_ms r \<le> t \<and> t \<le> js_end_ms r) ranges)"

definition max_open :: "js_event list \<Rightarrow> nat" where
  "max_open ranges = fold max (map (\<lambda>r. open_at ranges (js_start_ms r)) ranges) 0"

section \<open>Example data\<close>

text \<open>
  Two rows with the same start 09:00; the first has the end 09:00, the second the end 11:00.
\<close>

definition tie_rows :: "raw_row list" where
  "tie_rows =
     [\<lparr> datum = Some 739000, starttijd = TimeOfDay 32400000000, eindtijd = TimeOfDay 32400000000,
         row_date_label = ''2024-04-25'', row_description = ''a'', row_entities = [''A''],
         row_certain = False, row_verified = False, row_sources = [] \<rparr>,
      \<lparr> datum = Some 739000, starttijd = TimeOfDay 32400000000, eindtijd = TimeOfDay 39600000000,
         row_date_label = ''2024-04-25'', row_description = ''b'', row_entities = [''A''],
         row_certain = False, row_verified = False, row_sources = [] \<rparr>]"

text \<open>
  Three rows of one day: a range 09:00 to 10:00, a range 09:30 to 12:00 and a point at 11:00.
\<close>

definition nested_rows :: "raw_row list" where
  "nested_rows =
     [\<lparr> datum = Some 739000, starttijd = TimeOfDay 32400000000, eindtijd = TimeOfDay 36000000000,
         row_date_label = ''2024-04-25'', row_description = ''r'', row_entities = [''A''],
         row_certain = False, row_verified = False, row_sources = [] \<rparr>,
      \<lparr> datum = Some 739000, starttijd = TimeOfDay 34200000000, eindtijd = TimeOfDay 43200000000,
         row_date_label = ''2024-04-25'', row_description = ''e'', row_entities = [''A''],
         row_certain = False, row_verified = False, row_sources = [] \<rparr>,
      \<lparr> datum = Some 739000, starttijd = TimeOfDay 39600000000, eindtijd = TimeMissing,
         row_date_label = ''2024-04-25'', row_description = ''f'', row_entities = [''A''],
         row_certain = False, row_verified = False, row_sources = [] \<rparr>]"

text \<open>
  One row that starts at 10:00 and ends at 05:00, and three rows without an end at 09:00.
  The dates of these rows are 2024-04-25, day 739000.
\<close>

definition overnight_rows :: "raw_row list" where
  "overnight_rows =
     [\<lparr> datum = Some 739000, starttijd = TimeOfDay 36000000000, eindtijd = TimeOfDay 18000000000,
         row_date_label = ''2024-04-25'', row_description = ''n'', row_entities = [''A''],
         row_certain = False, row_verified = False, row_sources = [] \<rparr>]"

definition simultaneous_rows :: "raw_row list" where
  "simultaneous_rows =
     replicate 3
       \<lparr> datum = Some 739000, starttijd = TimeOfDay 32400000000, eindtijd = TimeMissing,
         row_date_label = ''2024-04-25'', row_description = ''p'', row_entities = [''A''],
         row_certain = False, row_verified = False, row_sources = [] \<rparr>"

text \<open>One row of 9999-12-31, the last day of \<open>datetime\<close>, from 12:00 to 05:00.\<close>

definition last_day_rows :: "raw_row list" where
  "last_day_rows =
     [\<lparr> datum = Some 3652058, starttijd = TimeOfDay 43200000000, eindtijd = TimeOfDay 18000000000,
         row_date_label = ''9999-12-31'', row_description = ''z'', row_entities = [''A''],
         row_certain = False, row_verified = False, row_sources = [] \<rparr>]"

text \<open>
  The events that \<open>read_events_from_excel\<close> returns for these rows, and the payloads of
  the vertical page; each instance below states that the function returns them.
\<close>

definition tie_events :: "TimelineEvent list" where
  "tie_events = projr (read_events_from_excel tie_rows)"

definition nested_events :: "TimelineEvent list" where
  "nested_events = projr (read_events_from_excel nested_rows)"

definition overnight_events :: "TimelineEvent list" where
  "overnight_events = projr (read_events_from_excel overnight_rows)"

definition nested_payload :: "js_event list" where
  "nested_payload = projr (events_payload nested_rows)"

definition overnight_payload :: "js_event list" where
  "overnight_payload = projr (events_payload overnight_rows)"

definition simultaneous_payload :: "js_event list" where
  "simultaneous_payload = projr (events_payload simultaneous_rows)"

text \<open>An event with the given id, start, end and entities, for the concrete instances below.\<close>

definition example_event ::
  "int \<Rightarrow> datetime option \<Rightarrow> datetime option \<Rightarrow> string list \<Rightarrow> TimelineEvent" where
  "example_event i s e ents =
     \<lparr> event_id = i, description = ''x'', entities = ents, date_label = ''2026-01-15'',
       time_label = format_time_label s e, start_dt = s, end_dt = e,
       certain = False, verified = False, sources = [] \<rparr>"

section \<open>Notions used in the statements and proofs\<close>

text \<open>
  The order of slots as the specification words it: by start, ranges before points, then id.
  It is kept apart from \<open>slot_sort_key\<close>, the key of the source, for comparison.
\<close>

definition spec_slot_key :: "TimelineEvent \<Rightarrow> datetime \<times> bool \<times> int" where
  "spec_slot_key e = (the (start_dt e), \<not> is_range e, event_id e)"

text \<open>
  The scan of \<open>max_slot_of\<close>, with the containment test and the slot lookup as parameters.
\<close>

definition scan_step :: "(TimelineEvent \<Rightarrow> bool) \<Rightarrow> (TimelineEvent \<Rightarrow> nat) \<Rightarrow> TimelineEvent \<Rightarrow> nat \<Rightarrow> nat" where
  "scan_step c f e m = (if start_dt e = None then m else if c e then max m (f e) else m)"

definition in_range_of :: "TimelineEvent \<Rightarrow> TimelineEvent \<Rightarrow> bool" where
  "in_range_of r e \<longleftrightarrow> the (start_dt r) \<le> the (start_dt e) \<and> the (start_dt e) \<le> the (end_dt r)"

text \<open>
  The invariant of the stacking loop. A card is well formed when its event has a start, its
  stored end is the effective end of the event and is not before the start. Within a subrow,
  in the order of placement, every card ends before the next one starts.
\<close>

definition card_start :: "card \<Rightarrow> datetime" where
  "card_start c = the (start_dt (card_event c))"

definition card_ok :: "card \<Rightarrow> bool" where
  "card_ok c \<longleftrightarrow> start_dt (card_event c) \<noteq> None \<and> card_start c \<le> card_end_dt c \<and>
     card_end_dt c = effective_end_dt (card_event c)"

definition before :: "card \<Rightarrow> card \<Rightarrow> bool" where
  "before a b \<longleftrightarrow> card_end_dt a < card_start b"

definition chain :: "card list \<Rightarrow> bool" where
  "chain sub \<longleftrightarrow> sorted_wrt before sub \<and> (\<forall>c\<in>set sub. card_ok c)"

definition apart :: "card \<Rightarrow> card \<Rightarrow> bool" where
  "apart a b \<longleftrightarrow> a \<noteq> b \<and> \<not> overlaps (card_start a) (card_end_dt a) (card_start b) (card_end_dt b)"

text \<open>
  The end of an event is not before its start, and the order of starts among events that
  have one.
\<close>

definition end_not_before_start :: "TimelineEvent \<Rightarrow> bool" where
  "end_not_before_start e \<longleftrightarrow>
     (case (start_dt e, end_dt e) of (Some s, Some t) \<Rightarrow> s \<le> t | _ \<Rightarrow> True)"

definition starts_ascend :: "TimelineEvent \<Rightarrow> TimelineEvent \<Rightarrow> bool" where
  "starts_ascend a b \<longleftrightarrow>
     (start_dt a \<noteq> None \<and> start_dt b \<noteq> None \<longrightarrow> the (start_dt a) \<le> the (start_dt b))"

text \<open>A time of day lies within one day.\<close>

definition valid_time_cell :: "time_cell \<Rightarrow> bool" where
  "valid_time_cell c = (case c of TimeOfDay t \<Rightarrow> 0 \<le> t \<and> t < microseconds_per_day | _ \<Rightarrow> True)"

definition valid_times :: "raw_row \<Rightarrow> bool" where
  "valid_times row \<longleftrightarrow> valid_time_cell (starttijd row) \<and> valid_time_cell (eindtijd row)"

text \<open>One turn of the loop of \<open>keep_first\<close>.\<close>

definition kf_step :: "'a \<Rightarrow> 'a list \<Rightarrow> 'a list" where
  "kf_step x ordered = (if x \<in> set ordered then ordered else ordered @ [x])"

text \<open>
  A range is open at an instant of its closed interval. The invariant of the column loop:
  every placed range lies in an existing column whose tracked end is not before its end,
  the tracked end of every column is the end of a range placed in it, and the ranges open
  at one instant lie in different columns. \<open>reached\<close> says that the number of columns
  is reached by the number of placed ranges open at some instant.
\<close>

definition open_in :: "js_event \<Rightarrow> int \<Rightarrow> bool" where
  "open_in r t \<longleftrightarrow> js_start_ms r \<le> t \<and> t \<le> js_end_ms r"

definition cols_inv :: "int list \<Rightarrow> (js_event \<times> nat) list \<Rightarrow> bool" where
  "cols_inv colEnd placed \<longleftrightarrow>
     (\<forall>p\<in>set placed. snd p < length colEnd \<and> js_end_ms (fst p) \<le> colEnd ! snd p) \<and>
     (\<forall>c<length colEnd. \<exists>p\<in>set placed. snd p = c \<and> js_end_ms (fst p) = colEnd ! c) \<and>
     (\<forall>t. distinct (map snd (filter (\<lambda>p. open_in (fst p) t) placed)))"

definition reached :: "int list \<Rightarrow> (js_event \<times> nat) list \<Rightarrow> bool" where
  "reached colEnd placed \<longleftrightarrow> colEnd = [] \<or> (\<exists>t. length colEnd \<le> open_at (map fst placed) t)"

definition starts_le :: "js_event \<Rightarrow> js_event \<Rightarrow> bool" where
  "starts_le a b \<longleftrightarrow> js_start_ms a \<le> js_start_ms b"

section \<open>Properties\<close>

subsection \<open>Dictionaries built by a loop of assignments\<close>

lemma dom_fold_upd:
  "dom (fold (\<lambda>e m. m(k e \<mapsto> v e)) xs m0) = dom m0 \<union> k ` set xs"
  by (induction xs arbitrary: m0) auto

lemma fold_upd_other:
  "a \<notin> k ` set xs \<Longrightarrow> fold (\<lambda>e m. m(k e \<mapsto> v e)) xs m0 a = m0 a"
  by (induction xs arbitrary: m0) auto

lemma fold_upd_distinct:
  "distinct (map k xs) \<Longrightarrow> e \<in> set xs \<Longrightarrow> fold (\<lambda>e m. m(k e \<mapsto> v e)) xs m0 (k e) = Some (v e)"
proof (induction xs arbitrary: m0)
  case Nil then show ?case by simp
next
  case (Cons x xs)
  show ?case
  proof (cases "e = x")
    case True
    with Cons.prems have n: "k x \<notin> k ` set xs" by auto
    have "fold (\<lambda>e m. m(k e \<mapsto> v e)) (x # xs) m0 (k x)
          = fold (\<lambda>e m. m(k e \<mapsto> v e)) xs (m0(k x \<mapsto> v x)) (k x)"
      by (simp only: fold_simps comp_apply)
    also have "\<dots> = (m0(k x \<mapsto> v x)) (k x)" by (rule fold_upd_other[OF n])
    also have "\<dots> = Some (v x)" by simp
    finally show ?thesis using True by (simp only:)
  next
    case False
    with Cons.prems have "e \<in> set xs" "distinct (map k xs)" by auto
    from Cons.IH[OF this(2) this(1)] show ?thesis by (simp only: fold_simps comp_apply)
  qed
qed

lemma slot_of_eq: "slot_of evs = fold (\<lambda>p m. m(event_id (snd p) \<mapsto> fst p)) (enumerate 0 evs) Map.empty"
  by (simp add: slot_of_def case_prod_unfold)

lemma dom_slot_of: "dom (slot_of evs) = event_id ` set evs"
proof -
  have "(\<lambda>p. event_id (snd p)) ` set (enumerate 0 evs) = event_id ` snd ` set (enumerate 0 evs)"
    by (simp add: image_image)
  also have "snd ` set (enumerate 0 evs) = set evs"
    by (metis map_snd_enumerate set_map)
  finally show ?thesis unfolding slot_of_eq dom_fold_upd by simp
qed

lemma slot_of_nth:
  assumes "distinct (map event_id evs)" "i < length evs"
  shows "slot_of evs (event_id (evs ! i)) = Some i"
proof -
  have "map (\<lambda>p. event_id (snd p)) (enumerate n evs) = map event_id evs" for n
    by (induction evs arbitrary: n) simp_all
  then have d: "distinct (map (\<lambda>p. event_id (snd p)) (enumerate 0 evs))"
    using assms(1) by (simp only:)
  have m: "(i, evs ! i) \<in> set (enumerate 0 evs)"
    using assms(2) by (simp add: in_set_enumerate_eq)
  show ?thesis
    unfolding slot_of_eq using fold_upd_distinct[OF d m, of fst Map.empty] by simp
qed


lemma dom_event_x: "dom (event_x evs) = event_id ` set evs"
  unfolding event_x_def dom_fold_upd by simp

lemma dom_event_w: "dom (event_w evs) = event_id ` set evs"
  unfolding event_w_def dom_fold_upd by simp

lemma set_timed_events: "set (timed_events es) = {e \<in> set es. start_dt e \<noteq> None}"
  by (auto simp: timed_events_def)

lemma mset_concat_place: "mset (concat (place c rows)) = add_mset c (mset (concat rows))"
  by (induction rows) auto


lemma mset_stack_step:
  "mset (concat (stack_step ex ew e rows)) =
     mset (concat rows) + (if start_dt e = None then {#} else {# make_card ex ew e #})"
  by (simp add: stack_step_def mset_concat_place)

lemma mset_stack_fold:
  "mset (concat (fold (stack_step ex ew) xs rows))
   = mset (concat rows) + mset (map (make_card ex ew) (filter (\<lambda>e. start_dt e \<noteq> None) xs))"
proof (induction xs arbitrary: rows)
  case Nil show ?case by simp
next
  case (Cons x xs)
  show ?case by (simp add: Cons.IH mset_stack_step)
qed

lemma card_event_make_card: "card_event (make_card ex ew e) = e"
  by (simp add: make_card_def)

lemma mset_concat_map_sort: "mset (concat (map (sort_key f) rows)) = mset (concat rows)"
  by (induction rows) simp_all


lemma mset_entity_subrows:
  "mset (map card_event (concat (entity_subrows ex ew xs))) = mset (filter (\<lambda>e. start_dt e \<noteq> None) xs)"
proof -
  let ?ys = "filter (\<lambda>e. start_dt e \<noteq> None) (sorted_events xs)"
  have "mset (concat (entity_subrows ex ew xs)) = mset (map (make_card ex ew) ?ys)"
    unfolding entity_subrows_def stack_events_def mset_concat_map_sort mset_stack_fold by simp
  then have "image_mset card_event (mset (concat (entity_subrows ex ew xs)))
           = image_mset card_event (mset (map (make_card ex ew) ?ys))"
    by (rule arg_cong)
  then have "mset (map card_event (concat (entity_subrows ex ew xs))) = mset (map card_event (map (make_card ex ew) ?ys))"
    by (simp only: mset_map)
  also have "map card_event (map (make_card ex ew) ?ys) = ?ys"
    by (simp add: card_event_make_card comp_def)
  also have "mset ?ys = mset (filter (\<lambda>e. start_dt e \<noteq> None) xs)"
    by (simp add: sorted_events_def)
  finally show ?thesis .
qed

lemma timed_events_Nil: "timed_events es = [] \<longleftrightarrow> (\<forall>e\<in>set es. start_dt e = None)"
proof -
  have "timed_events es = [] \<longleftrightarrow> set (timed_events es) = {}" by simp
  also have "\<dots> \<longleftrightarrow> (\<forall>e\<in>set es. start_dt e = None)"
    unfolding set_timed_events by auto
  finally show ?thesis .
qed

lemma example_event_sel [simp]:
  "event_id (example_event i s e ents) = i"
  "start_dt (example_event i s e ents) = s"
  "end_dt (example_event i s e ents) = e"
  "entities (example_event i s e ents) = ents"
  by (simp_all add: example_event_def)

subsection \<open>Normalisation of the end instant\<close>

text \<open>
  Claim C6, as amended. When start and end are both resolved and the end is earlier than the
  start, \<open>normalize_end_dt\<close> returns the end advanced by exactly one day (86400000000
  microseconds) if the advanced end is not after \<open>datetime.max\<close>, and raises
  \<open>OverflowError\<close> if it is; when the start or the end is absent, or the end is not
  earlier than the start, it returns the end unchanged. The loop body of
  \<open>read_events_from_excel\<close> raises what the normalisation raises, and otherwise builds an
  event whose stored end is the value the normalisation returned.
\<close>

theorem normalize_end_dt_overnight: "normalize_end_dt (Some s) (Some e) =
     (if e < s then (if e + 86400000000 \<le> datetime_max then Inr (Some (e + 86400000000))
                     else Inl OverflowError)
      else Inr (Some e))
  \<and> normalize_end_dt None eo = Inr eo \<and> normalize_end_dt so None = Inr None
  \<and> map_sum id end_dt (make_event idx row) =
      normalize_end_dt (parse_date_time (datum row) (starttijd row))
        (if eindtijd row \<noteq> TimeMissing then parse_date_time (datum row) (eindtijd row) else None)"
  by (auto simp: normalize_end_dt_def timedelta_days_def microseconds_per_day_def make_event_def Let_def parse_date_time_def split: option.splits time_cell.splits)

theorem normalize_end_dt_overnight_witness:
  "normalize_end_dt (Some 82800000000) (Some 3600000000) = Inr (Some 90000000000)
   \<and> normalize_end_dt (Some 3600000000) (Some 82800000000) = Inr (Some 82800000000)"
  using normalize_end_dt_overnight[of 82800000000 3600000000]
        normalize_end_dt_overnight[of 3600000000 82800000000]
  by (simp add: datetime_max_def microseconds_per_day_def)

text \<open>
  The claim as the specification words it fails on the last day of \<open>datetime\<close>: for
  a row of 9999-12-31 from 12:00 to 05:00 the end is earlier than the start, the advanced
  end would be 10000-01-01T05:00, the addition raises and the read returns no events.
\<close>

theorem normalize_end_dt_raises_on_last_day:
  "normalize_end_dt (Some (3652058 * 86400000000 + 43200000000))
                    (Some (3652058 * 86400000000 + 18000000000)) = Inl OverflowError
   \<and> read_events_from_excel last_day_rows = Inl OverflowError"
  by (simp add: last_day_rows_def read_events_from_excel_def make_event_def parse_date_time_def
      normalize_end_dt_def timedelta_days_def datetime_max_def microseconds_per_day_def Let_def)

subsection \<open>Effective end of an event without a start\<close>

text \<open>
  Claim C10. For an event without a start, \<open>effective_end_dt\<close> returns \<open>datetime.max\<close>,
  whatever the event's end is; the specification's effective end (the end if present, else
  the start) is the event's end there. With \<open>datetime.max\<close> as its end, such an event
  passes the overlap test against every interval that starts at or after the instant stood
  in for its start.
\<close>

theorem effective_end_dt_without_start: "start_dt e = None \<Longrightarrow> effective_end_dt e = datetime_max \<and> spec_effective_end e = end_dt e
  \<and> (\<forall>a_start b_start b_end. a_start \<le> b_start \<and> b_start \<le> b_end \<and> b_start \<le> datetime_max \<longrightarrow> overlaps a_start (effective_end_dt e) b_start b_end)"
  by (auto simp: effective_end_dt_def spec_effective_end_def overlaps_def split: option.splits)

theorem effective_end_dt_without_start_witness: "start_dt (example_event 0 None None [''A'']) = None \<and>
   effective_end_dt (example_event 0 None None [''A'']) = 315537897599999999 \<and>
   spec_effective_end (example_event 0 None None [''A'']) = None \<and>
   overlaps 0 (effective_end_dt (example_event 0 None None [''A''])) 5 5"
proof -
  have s: "start_dt (example_event 0 None None [''A'']) = None" by (simp add: example_event_def)
  from effective_end_dt_without_start[OF s] show ?thesis 
    by (simp add: effective_end_dt_def spec_effective_end_def overlaps_def datetime_max_def microseconds_per_day_def)
qed

subsection \<open>The empty-result error\<close>

text \<open>
  Claim C8. The horizontal layout returns an error exactly when no event of the list has a
  start. Otherwise it returns a geometry in which the slot, x and width tables have
  exactly the ids of the events with a start as keys, and every entity lane holds exactly the
  events of that entity that have a start: the events without a start are left out.
\<close>

theorem horizontal_layout_error_iff_untimed:
  "((\<exists>err. horizontal_layout es = Inl err) \<longleftrightarrow> (\<forall>e\<in>set es. start_dt e = None)) \<and>
   (\<forall>g. horizontal_layout es = Inr g \<longrightarrow>
      dom (geo_slot_of g) = event_id ` {e \<in> set es. start_dt e \<noteq> None} \<and>
      dom (geo_event_x g) = event_id ` {e \<in> set es. start_dt e \<noteq> None} \<and>
      dom (geo_event_w g) = event_id ` {e \<in> set es. start_dt e \<noteq> None} \<and>
      (\<forall>entity subrows. geo_layout g entity = Some subrows \<longrightarrow>
          mset (map card_event (concat subrows)) =
          mset (filter (\<lambda>e. start_dt e \<noteq> None) (group_events_by_entity es entity))))"
proof (cases "timed_events es = []")
  case True
  then have "horizontal_layout es = Inl (ValueError ''No events with a valid start time were found.'')"
    by (simp add: horizontal_layout_def Let_def)
  with True show ?thesis by (simp add: timed_events_Nil)
next
  case False
  define g where "g = \<lparr> geo_slot_of = slot_of (timed_events es),
                    geo_event_x = event_x (timed_events es),
                    geo_event_w = event_w (timed_events es),
                    geo_max_width = last (x_start (timed_events es)) + last (slot_width (timed_events es)),
                    geo_layout = (\<lambda>entity.
                       if group_events_by_entity es entity = [] then None
                       else Some (entity_subrows (event_x (timed_events es)) (event_w (timed_events es))
                                    (group_events_by_entity es entity))) \<rparr>"
  have h: "horizontal_layout es = Inr g"
    using False by (simp add: horizontal_layout_def g_def Let_def)
  have 1: "dom (geo_slot_of g) = event_id ` {e \<in> set es. start_dt e \<noteq> None}"
    by (simp add: g_def dom_slot_of set_timed_events)
  have 2: "dom (geo_event_x g) = event_id ` {e \<in> set es. start_dt e \<noteq> None}"
    by (simp add: g_def dom_event_x set_timed_events)
  have 3: "dom (geo_event_w g) = event_id ` {e \<in> set es. start_dt e \<noteq> None}"
    by (simp add: g_def dom_event_w set_timed_events)
  have 4: "mset (map card_event (concat subrows)) =
          mset (filter (\<lambda>e. start_dt e \<noteq> None) (group_events_by_entity es entity))"
    if "geo_layout g entity = Some subrows" for entity subrows
  proof -
    from that have "subrows = entity_subrows (event_x (timed_events es)) (event_w (timed_events es))
                                    (group_events_by_entity es entity)"
      by (simp add: g_def split: if_splits)
    then show ?thesis by (simp only: mset_entity_subrows)
  qed
  have 5: "\<not> (\<forall>e\<in>set es. start_dt e = None)" using False by (simp add: timed_events_Nil)
  show ?thesis using h 1 2 3 4 5 by simp
qed

theorem horizontal_layout_error_iff_untimed_witness:
  "\<exists>g subrows. horizontal_layout [example_event 0 (Some 10) None [''A''], example_event 1 None None [''A'']] = Inr g
     \<and> geo_layout g ''A'' = Some subrows
     \<and> dom (geo_event_x g) = {0}
     \<and> mset (map card_event (concat subrows)) = {# example_event 0 (Some 10) None [''A''] #}"
proof -
  let ?es = "[example_event 0 (Some 10) None [''A''], example_event 1 None None [''A'']]"
  have ne: "timed_events ?es \<noteq> []"
    by (simp add: timed_events_Nil)
  have gne: "group_events_by_entity ?es ''A'' \<noteq> []"
    by (simp add: group_events_by_entity_def)
  obtain g where g: "horizontal_layout ?es = Inr g" 
    using ne by (simp add: horizontal_layout_def Let_def)
  then obtain subrows where sr: "geo_layout g ''A'' = Some subrows"
    using ne gne by (auto simp add: horizontal_layout_def Let_def)
  have f: "filter (\<lambda>e. start_dt e \<noteq> None) (group_events_by_entity ?es ''A'') = [example_event 0 (Some 10) None [''A'']]"
    by (simp add: group_events_by_entity_def)
  have "{e \<in> set ?es. start_dt e \<noteq> None} = {example_event 0 (Some 10) None [''A'']}"
    by auto
  then have i: "event_id ` {e \<in> set ?es. start_dt e \<noteq> None} = {0}"
    by simp
  from horizontal_layout_error_iff_untimed[of ?es] g sr have d: "dom (geo_event_x g) = event_id ` {e \<in> set ?es. start_dt e \<noteq> None}"
    and m: "mset (map card_event (concat subrows)) = mset (filter (\<lambda>e. start_dt e \<noteq> None) (group_events_by_entity ?es ''A''))"
    by blast+
  have d': "dom (geo_event_x g) = {0}" using d i by (rule trans)
  have "mset [example_event 0 (Some 10) None [''A'']] = {# example_event 0 (Some 10) None [''A''] #}"
    by simp
  with m f have m': "mset (map card_event (concat subrows)) = {# example_event 0 (Some 10) None [''A''] #}"
    by (simp only:)
  show ?thesis
    by (rule exI[of _ g], rule exI[of _ subrows]) (intro conjI g sr d' m')
qed

subsection \<open>Rows read by \<open>read_events_from_excel\<close>\<close>

lemma event_id_make_event: "make_event idx row = Inr ev \<Longrightarrow> event_id ev = int idx"
  by (auto simp: make_event_def Let_def split: sum.splits)

lemma read_rows_ids:
  "read_rows n rows = Inr es \<Longrightarrow> map event_id es = map int [n..<n + length rows]"
proof (induction rows arbitrary: n es)
  case Nil
  then show ?case by simp
next
  case (Cons row rows)
  from Cons.prems obtain ev evs where m: "make_event n row = Inr ev"
    and r: "read_rows (Suc n) rows = Inr evs" and es: "es = ev # evs"
    by (auto split: sum.splits)
  from Cons.IH[OF r] event_id_make_event[OF m] es
  show ?case by (simp add: upt_rec)
qed

lemma map_event_id_read:
  "read_events_from_excel rows = Inr es \<Longrightarrow> map event_id es = map int [0..<length rows]"
  using read_rows_ids[of 0 rows es] by (simp add: read_events_from_excel_def)

lemma distinct_ids_read:
  "read_events_from_excel rows = Inr es \<Longrightarrow> distinct (map event_id es)"
  by (simp add: map_event_id_read distinct_map inj_on_def)

lemmas read_eval = read_events_from_excel_def make_event_def parse_date_time_def
      normalize_end_dt_def microseconds_per_day_def Let_def timedelta_days_def datetime_max_def

lemma read_tie_rows: "read_events_from_excel tie_rows = Inr tie_events"
  by (simp add: tie_events_def tie_rows_def read_eval)

lemma read_nested_rows: "read_events_from_excel nested_rows = Inr nested_events"
  by (simp add: nested_events_def nested_rows_def read_eval)

subsection \<open>Slots and packed offsets\<close>

lemma length_pack_from: "length (pack_from x ws) = length ws"
  by (induction ws arbitrary: x) simp_all

lemma pack_from_nth:
  "i < length ws \<Longrightarrow> pack_from x ws ! i = x + sum_list (take i ws) + gap * int i"
proof (induction ws arbitrary: x i)
  case Nil then show ?case by simp
next
  case (Cons w ws)
  show ?case
  proof (cases i)
    case 0 then show ?thesis by simp
  next
    case (Suc k)
    with Cons.prems have "k < length ws" by simp
    from Cons.IH[OF this, of "x + w + gap"] Suc show ?thesis
      by (simp add: algebra_simps)
  qed
qed

lemma estimate_card_width_ge: "180 \<le> estimate_card_width t r"
  by (simp add: estimate_card_width_def Let_def)

lemma estimate_card_width_le: "estimate_card_width t r \<le> 320"
  by (simp add: estimate_card_width_def Let_def)

lemma sum_list_take_mono:
  assumes "\<forall>w\<in>set ws. (0::int) \<le> w" "i \<le> j"
  shows "sum_list (take i ws) \<le> sum_list (take j ws)"
proof -
  have "take j ws = take i ws @ take (j - i) (drop i ws)"
    using assms(2) by (metis le_add_diff_inverse take_add)
  moreover have "0 \<le> sum_list (take (j - i) (drop i ws))"
    using assms(1) by (intro sum_list_nonneg) (meson in_set_dropD in_set_takeD)
  ultimately show ?thesis by simp
qed

lemma distinct_ids_timed:
  assumes "distinct (map event_id es)"
  shows "distinct (map event_id (timed_events es))"
proof -
  have "mset (map event_id (timed_events es)) = mset (map event_id (filter (\<lambda>e. start_dt e \<noteq> None) es))"
    by (simp add: timed_events_def)
  moreover have "distinct (map event_id (filter (\<lambda>e. start_dt e \<noteq> None) es))"
    using assms by (rule distinct_map_filter)
  ultimately show ?thesis by (metis mset_eq_imp_distinct_iff)
qed

lemma sorted_timed: "sorted (map slot_sort_key (timed_events es))"
  by (simp add: timed_events_def)

lemma strict_timed:
  assumes "distinct (map event_id es)" "i < j" "j < length (timed_events es)"
  shows "slot_sort_key (timed_events es ! i) < slot_sort_key (timed_events es ! j)"
proof -
  let ?t = "timed_events es"
  have le: "slot_sort_key (?t ! i) \<le> slot_sort_key (?t ! j)"
    using sorted_timed[of es] assms(2,3) by (simp add: sorted_iff_nth_mono)
  have "event_id (?t ! i) \<noteq> event_id (?t ! j)"
    using distinct_ids_timed[OF assms(1)] assms(2,3)
    by (simp add: distinct_conv_nth)
  then have "slot_sort_key (?t ! i) \<noteq> slot_sort_key (?t ! j)"
    by (auto simp: slot_sort_key_def)
  with le show ?thesis by simp
qed

lemma x_start_nth:
  "i < length tev \<Longrightarrow> x_start tev ! i = sum_list (take i (slot_width tev)) + 24 * int i"
  by (simp add: x_start_def pack_from_nth slot_width_def gap_def)

lemma x_start_strict:
  assumes "i < j" "j < length tev"
  shows "x_start tev ! i < x_start tev ! j"
proof -
  have "\<forall>w\<in>set (slot_width tev). 0 \<le> w"
  proof
    fix w assume "w \<in> set (slot_width tev)"
    then obtain e where "w = estimate_card_width (card_text e) (is_range e)"
      by (auto simp: slot_width_def)
    with estimate_card_width_ge[of "card_text e" "is_range e"] show "0 \<le> w" by simp
  qed
  then have "sum_list (take i (slot_width tev)) \<le> sum_list (take j (slot_width tev))"
    using assms(1) by (intro sum_list_take_mono) simp_all
  then show ?thesis using assms by (simp add: x_start_nth)
qed

text \<open>
  Claim C3, as amended. Over the events with a start, whose ids are distinct, slot indices
  follow the strictly increasing order of the key (start, end absent, id): events that have
  an end come before events without one at the same start, whether or not that end differs
  from the start. Every event with a start has the slot of its position, the x offset of
  slot \<open>i\<close> is the sum of the widths of the slots before it plus 24 per such slot, and
  the x offsets are strictly increasing in the slot index.
\<close>

theorem slots_follow_sort_key_and_pack:
  assumes "distinct (map event_id events)"
  shows "set (timed_events events) = {e \<in> set events. start_dt e \<noteq> None} \<and>
         (\<forall>i<length (timed_events events).
            slot_of (timed_events events) (event_id (timed_events events ! i)) = Some i \<and>
            x_start (timed_events events) ! i
              = sum_list (take i (slot_width (timed_events events))) + 24 * int i) \<and>
         (\<forall>i j. i < j \<and> j < length (timed_events events) \<longrightarrow>
            slot_sort_key (timed_events events ! i) < slot_sort_key (timed_events events ! j) \<and>
            x_start (timed_events events) ! i < x_start (timed_events events) ! j)"
proof (intro conjI allI impI)
  show "set (timed_events events) = {e \<in> set events. start_dt e \<noteq> None}"
    by (rule set_timed_events)
next
  fix i assume "i < length (timed_events events)"
  then show "slot_of (timed_events events) (event_id (timed_events events ! i)) = Some i"
    by (rule slot_of_nth[OF distinct_ids_timed[OF assms]])
next
  fix i assume "i < length (timed_events events)"
  then show "x_start (timed_events events) ! i
              = sum_list (take i (slot_width (timed_events events))) + 24 * int i"
    by (rule x_start_nth)
next
  fix i j assume "i < j \<and> j < length (timed_events events)"
  then show "slot_sort_key (timed_events events ! i) < slot_sort_key (timed_events events ! j)"
    using strict_timed[OF assms] by blast
next
  fix i j assume "i < j \<and> j < length (timed_events events)"
  then show "x_start (timed_events events) ! i < x_start (timed_events events) ! j"
    using x_start_strict by blast
qed

theorem slots_follow_sort_key_and_pack_witness:
  "read_events_from_excel tie_rows = Inr tie_events \<and>
   distinct (map event_id tie_events) \<and>
   slot_of (timed_events tie_events)
     (event_id (timed_events tie_events ! 1)) = Some 1 \<and>
   x_start (timed_events tie_events) ! 1
     = sum_list (take 1 (slot_width (timed_events tie_events))) + 24 * int 1 \<and>
   slot_sort_key (timed_events tie_events ! 0)
     < slot_sort_key (timed_events tie_events ! 1) \<and>
   x_start (timed_events tie_events) ! 0
     < x_start (timed_events tie_events) ! 1"
proof -
  let ?E = "tie_events"
  have r: "read_events_from_excel tie_rows = Inr ?E" by (rule read_tie_rows)
  have d: "distinct (map event_id ?E)"
    using r by (rule distinct_ids_read)
  have "length (timed_events ?E) = length (filter (\<lambda>e. start_dt e \<noteq> None) ?E)"
    by (simp add: timed_events_def)
  also have "\<dots> = 2"
    by (simp add: tie_events_def tie_rows_def read_eval)
  finally have l: "length (timed_events ?E) = 2" .
  note c = slots_follow_sort_key_and_pack[OF d]
  from c have a: "\<forall>i<length (timed_events ?E).
            slot_of (timed_events ?E) (event_id (timed_events ?E ! i)) = Some i \<and>
            x_start (timed_events ?E) ! i
              = sum_list (take i (slot_width (timed_events ?E))) + 24 * int i"
    by (rule conjunct1[OF conjunct2])
  from c have b: "\<forall>i j. i < j \<and> j < length (timed_events ?E) \<longrightarrow>
            slot_sort_key (timed_events ?E ! i) < slot_sort_key (timed_events ?E ! j) \<and>
            x_start (timed_events ?E) ! i < x_start (timed_events ?E) ! j"
    by (rule conjunct2[OF conjunct2])
  have l1: "1 < length (timed_events ?E)" using l by simp
  have l2: "(0::nat) < 1 \<and> 1 < length (timed_events ?E)" using l by simp
  from a[rule_format, OF l1] b[rule_format, OF l2] d r show ?thesis by simp
qed

text \<open>
  Claim C3 as stated fails: with the key (start, range before point, id), the second row of
  \<open>tie_rows\<close>, a range, comes before the first, whose end equals its start and which is
  therefore not a range; the layout gives the first row slot 0 and the second row slot 1.
\<close>

theorem slot_order_not_by_is_range:
  "read_events_from_excel tie_rows = Inr tie_events
   \<and> spec_slot_key (tie_events ! 1) < spec_slot_key (tie_events ! 0)
   \<and> slot_of (timed_events tie_events) 0 = Some 0
   \<and> slot_of (timed_events tie_events) 1 = Some 1"
  by (simp add: tie_events_def tie_rows_def read_events_from_excel_def make_event_def parse_date_time_def normalize_end_dt_def timed_events_def slot_sort_key_def microseconds_per_day_def Let_def spec_slot_key_def is_range_def slot_of_def)

subsection \<open>Widths of ranges\<close>

lemma event_x_nth:
  assumes "distinct (map event_id tev)" "i < length tev"
  shows "event_x tev (event_id (tev ! i)) = Some (x_start tev ! i)"
proof -
  have m: "tev ! i \<in> set tev" using assms(2) by simp
  have "event_x tev (event_id (tev ! i))
        = Some (x_start tev ! the (slot_of tev (event_id (tev ! i))))"
    unfolding event_x_def by (rule fold_upd_distinct[OF assms(1) m])
  then show ?thesis by (simp add: slot_of_nth[OF assms])
qed

lemma event_w_nth:
  assumes "distinct (map event_id tev)" "i < length tev"
  shows "event_w tev (event_id (tev ! i)) = Some (final_width tev (tev ! i))"
proof -
  have m: "tev ! i \<in> set tev" using assms(2) by simp
  show ?thesis unfolding event_w_def by (rule fold_upd_distinct[OF assms(1) m])
qed

lemma range_max_slot_lookup:
  assumes "distinct (map event_id tev)" "r \<in> set tev" "is_range r"
  shows "range_max_slot tev (event_id r) = Some (max_slot_of tev r)"
proof -
  have d: "distinct (map event_id (filter is_range tev))"
    using assms(1) by (rule distinct_map_filter)
  have m: "r \<in> set (filter is_range tev)" using assms(2,3) by simp
  show ?thesis unfolding range_max_slot_def by (rule fold_upd_distinct[OF d m])
qed

lemma scan_ge_init: "m \<le> fold (scan_step c f) xs m"
proof (induction xs arbitrary: m)
  case Nil show ?case by simp
next
  case (Cons x xs)
  have "m \<le> scan_step c f x m" by (simp add: scan_step_def)
  also have "\<dots> \<le> fold (scan_step c f) xs (scan_step c f x m)" by (rule Cons.IH)
  finally show ?case by simp
qed

lemma scan_ge_mem:
  "e \<in> set xs \<Longrightarrow> start_dt e \<noteq> None \<Longrightarrow> c e \<Longrightarrow> f e \<le> fold (scan_step c f) xs m"
proof (induction xs arbitrary: m)
  case Nil then show ?case by simp
next
  case (Cons x xs)
  show ?case
  proof (cases "e = x")
    case True
    with Cons.prems have "f e \<le> scan_step c f x m" by (auto simp add: scan_step_def)
    also have "\<dots> \<le> fold (scan_step c f) xs (scan_step c f x m)" by (rule scan_ge_init)
    finally show ?thesis by simp
  next
    case False
    with Cons.prems have "e \<in> set xs" by simp
    from Cons.IH[OF this Cons.prems(2,3)] show ?thesis by simp
  qed
qed

lemma scan_le_bound:
  "m \<le> B \<Longrightarrow> (\<And>e. e \<in> set xs \<Longrightarrow> start_dt e \<noteq> None \<Longrightarrow> c e \<Longrightarrow> f e \<le> B)
     \<Longrightarrow> fold (scan_step c f) xs m \<le> B"
proof (induction xs arbitrary: m)
  case Nil then show ?case by simp
next
  case (Cons x xs)
  have "scan_step c f x m \<le> B"
    using Cons.prems(1) Cons.prems(2)[of x] by (simp add: scan_step_def)
  moreover have "\<And>e. e \<in> set xs \<Longrightarrow> start_dt e \<noteq> None \<Longrightarrow> c e \<Longrightarrow> f e \<le> B"
    using Cons.prems(2) by simp
  ultimately have "fold (scan_step c f) xs (scan_step c f x m) \<le> B" by (rule Cons.IH)
  then show ?case by simp
qed

lemma max_slot_of_eq:
  "max_slot_of tev r =
     fold (scan_step (in_range_of r) (\<lambda>e. the (slot_of tev (event_id e)))) tev
       (the (slot_of tev (event_id r)))"
  unfolding max_slot_of_def scan_step_def in_range_of_def by (rule refl)

lemma right_edge_mono:
  assumes "i \<le> j" "j < length tev"
  shows "x_start tev ! i + slot_width tev ! i \<le> x_start tev ! j + slot_width tev ! j"
proof (cases "i = j")
  case True then show ?thesis by simp
next
  case False
  with assms have lt: "i < j" by simp
  have len: "length (slot_width tev) = length tev" by (simp add: slot_width_def)
  have nn: "\<forall>w\<in>set (slot_width tev). 0 \<le> w"
  proof
    fix w assume "w \<in> set (slot_width tev)"
    then obtain e where "w = estimate_card_width (card_text e) (is_range e)"
      by (auto simp: slot_width_def)
    with estimate_card_width_ge[of "card_text e" "is_range e"] show "0 \<le> w" by simp
  qed
  have "sum_list (take (Suc i) (slot_width tev)) \<le> sum_list (take j (slot_width tev))"
    using nn lt by (intro sum_list_take_mono) simp_all
  moreover have "sum_list (take (Suc i) (slot_width tev)) = sum_list (take i (slot_width tev)) + slot_width tev ! i"
    using lt assms(2) len by (simp add: take_Suc_conv_app_nth)
  moreover have "0 \<le> slot_width tev ! j" using nn assms(2) len by simp
  moreover have "int i \<le> int j" using lt by simp
  ultimately show ?thesis using assms lt by (simp add: x_start_nth)
qed

lemma slot_lt_length:
  assumes "distinct (map event_id tev)" "e \<in> set tev"
  shows "the (slot_of tev (event_id e)) < length tev \<and> tev ! the (slot_of tev (event_id e)) = e"
proof -
  from assms(2) obtain i where i: "i < length tev" "tev ! i = e" by (auto simp: in_set_conv_nth)
  with slot_of_nth[OF assms(1) i(1)] show ?thesis by simp
qed

lemma max_slot_of_lt:
  assumes "distinct (map event_id tev)" "r \<in> set tev"
  shows "max_slot_of tev r < length tev"
proof -
  have ne: "tev \<noteq> []" using assms(2) by auto
  have "max_slot_of tev r \<le> length tev - 1"
    unfolding max_slot_of_eq
  proof (rule scan_le_bound)
    show "the (slot_of tev (event_id r)) \<le> length tev - 1"
      using conjunct1[OF slot_lt_length[OF assms]] by arith
  next
    fix e assume "e \<in> set tev"
    from conjunct1[OF slot_lt_length[OF assms(1) this]]
    show "the (slot_of tev (event_id e)) \<le> length tev - 1" by arith
  qed
  with ne show ?thesis by (cases tev) simp_all
qed

lemma start_of_timed: "e \<in> set (timed_events es) \<Longrightarrow> start_dt e \<noteq> None"
  by (simp add: set_timed_events)

lemma slot_width_nth:
  "i < length tev \<Longrightarrow> slot_width tev ! i = estimate_card_width (card_text (tev ! i)) (is_range (tev ! i))"
  by (simp add: slot_width_def)

lemma far_edge_range:
  assumes "distinct (map event_id tev)" "r \<in> set tev" "is_range r"
  shows "x_start tev ! the (slot_of tev (event_id r)) + final_width tev r
         = max (x_start tev ! the (slot_of tev (event_id r)) + slot_width tev ! the (slot_of tev (event_id r)))
               (x_start tev ! max_slot_of tev r + slot_width tev ! max_slot_of tev r)"
  using assms(3) range_max_slot_lookup[OF assms]
  by (simp add: final_width_def Let_def max_def)

lemma final_width_point: "\<not> is_range e \<Longrightarrow> final_width tev e = slot_width tev ! the (slot_of tev (event_id e))"
  by (simp add: final_width_def Let_def)

lemma max_slot_ge_own:
  "the (slot_of tev (event_id r)) \<le> max_slot_of tev r"
  unfolding max_slot_of_eq by (rule scan_ge_init)

lemma max_slot_ge_contained:
  assumes "e \<in> set tev" "start_dt e \<noteq> None" "in_range_of r e"
  shows "the (slot_of tev (event_id e)) \<le> max_slot_of tev r"
  unfolding max_slot_of_eq using assms by (rule scan_ge_mem)

lemma max_slot_nested:
  assumes "e \<in> set tev" "start_dt e \<noteq> None" "in_range_of r e"
      and "the (end_dt e) \<le> the (end_dt r)"
  shows "max_slot_of tev e \<le> max_slot_of tev r"
proof -
  have "fold (scan_step (in_range_of e) (\<lambda>e. the (slot_of tev (event_id e)))) tev
       (the (slot_of tev (event_id e))) \<le> max_slot_of tev r"
  proof (rule scan_le_bound)
    show "the (slot_of tev (event_id e)) \<le> max_slot_of tev r"
      using assms(1-3) by (rule max_slot_ge_contained)
  next
    fix f assume f: "f \<in> set tev" "start_dt f \<noteq> None" "in_range_of e f"
    have "in_range_of r f"
      using f(3) assms(3,4) by (simp add: in_range_of_def)
    with f(1,2) show "the (slot_of tev (event_id f)) \<le> max_slot_of tev r"
      by (rule max_slot_ge_contained)
  qed
  then show ?thesis by (simp only: max_slot_of_eq)
qed

text \<open>
  Claim C2, as amended. For a range \<open>r\<close> and an event \<open>e\<close> with a start within
  [start(r), end(r)], the far edge x(r) + width(r) reaches at least x(e) plus the
  text-estimated width of \<open>e\<close>, the extent of the slot of \<open>e\<close>; it reaches the far
  edge x(e) + width(e) of the final geometry when \<open>e\<close> is not a range or ends no later
  than \<open>r\<close>. The width of \<open>r\<close> is never smaller than its text-estimated width.
\<close>

theorem range_reaches_contained_slots:
  assumes d: "distinct (map event_id events)"
      and r: "r \<in> set (timed_events events)" "is_range r"
      and e: "e \<in> set (timed_events events)"
      and c: "the (start_dt r) \<le> the (start_dt e)" "the (start_dt e) \<le> the (end_dt r)"
  shows "\<exists>xr wr xe we.
           event_x (timed_events events) (event_id r) = Some xr \<and>
           event_w (timed_events events) (event_id r) = Some wr \<and>
           event_x (timed_events events) (event_id e) = Some xe \<and>
           event_w (timed_events events) (event_id e) = Some we \<and>
           xe + estimate_card_width (card_text e) (is_range e) \<le> xr + wr \<and>
           estimate_card_width (card_text r) (is_range r) \<le> wr \<and>
           (\<not> is_range e \<or> the (end_dt e) \<le> the (end_dt r) \<longrightarrow> xe + we \<le> xr + wr)"
proof -
  let ?T = "timed_events events"
  let ?i = "the (slot_of ?T (event_id r))"
  let ?j = "the (slot_of ?T (event_id e))"
  let ?L = "max_slot_of ?T r"
  let ?edge = "\<lambda>k. x_start ?T ! k + slot_width ?T ! k"
  have dT: "distinct (map event_id ?T)" using d by (rule distinct_ids_timed)
  have i: "?i < length ?T" "?T ! ?i = r" using slot_lt_length[OF dT r(1)] by simp_all
  have j: "?j < length ?T" "?T ! ?j = e" using slot_lt_length[OF dT e] by simp_all
  have se: "start_dt e \<noteq> None" using e by (rule start_of_timed)
  have ir: "in_range_of r e" using c by (simp add: in_range_of_def)
  have L: "?L < length ?T" using dT r(1) by (rule max_slot_of_lt)
  have jL: "?j \<le> ?L" using e se ir by (rule max_slot_ge_contained)
  have xr: "event_x ?T (event_id r) = Some (x_start ?T ! ?i)"
    using event_x_nth[OF dT i(1)] i(2) by simp
  have wr: "event_w ?T (event_id r) = Some (final_width ?T r)"
    using event_w_nth[OF dT i(1)] i(2) by simp
  have xe: "event_x ?T (event_id e) = Some (x_start ?T ! ?j)"
    using event_x_nth[OF dT j(1)] j(2) by simp
  have we: "event_w ?T (event_id e) = Some (final_width ?T e)"
    using event_w_nth[OF dT j(1)] j(2) by simp
  have far: "x_start ?T ! ?i + final_width ?T r = max (?edge ?i) (?edge ?L)"
    using dT r by (rule far_edge_range)
  have wj: "slot_width ?T ! ?j = estimate_card_width (card_text e) (is_range e)"
    using slot_width_nth[OF j(1)] j(2) by simp
  have wi: "slot_width ?T ! ?i = estimate_card_width (card_text r) (is_range r)"
    using slot_width_nth[OF i(1)] i(2) by simp
  have e1: "?edge ?j \<le> ?edge ?L" using jL L by (rule right_edge_mono)
  have 1: "x_start ?T ! ?j + estimate_card_width (card_text e) (is_range e)
           \<le> x_start ?T ! ?i + final_width ?T r"
    using e1 far wj by simp
  have 2: "estimate_card_width (card_text r) (is_range r) \<le> final_width ?T r"
    using far wi by simp
  have 3: "x_start ?T ! ?j + final_width ?T e \<le> x_start ?T ! ?i + final_width ?T r"
    if "\<not> is_range e \<or> the (end_dt e) \<le> the (end_dt r)"
  proof (cases "is_range e")
    case False
    then have "final_width ?T e = slot_width ?T ! ?j" by (rule final_width_point)
    with 1 wj show ?thesis by simp
  next
    case True
    with that have le: "the (end_dt e) \<le> the (end_dt r)" by simp
    have n: "max_slot_of ?T e \<le> ?L" using e se ir le by (rule max_slot_nested)
    have "x_start ?T ! ?j + final_width ?T e = max (?edge ?j) (?edge (max_slot_of ?T e))"
      using dT e True by (rule far_edge_range)
    moreover have "?edge (max_slot_of ?T e) \<le> ?edge ?L" using n L by (rule right_edge_mono)
    ultimately have "x_start ?T ! ?j + final_width ?T e \<le> ?edge ?L"
      using e1 by (simp only: max.bounded_iff)
    also have "?edge ?L \<le> x_start ?T ! ?i + final_width ?T r"
      by (simp only: far max.cobounded2)
    finally show ?thesis .
  qed
  show ?thesis
    apply (rule exI[of _ "x_start ?T ! ?i"], rule exI[of _ "final_width ?T r"])
    apply (rule exI[of _ "x_start ?T ! ?j"], rule exI[of _ "final_width ?T e"])
    using xr wr xe we 1 2 3 by (intro conjI impI) assumption+
qed

theorem range_reaches_contained_slots_witness:
  "read_events_from_excel nested_rows = Inr nested_events \<and>
   distinct (map event_id nested_events) \<and>
   nested_events ! 1 \<in> set (timed_events nested_events) \<and>
   is_range (nested_events ! 1) \<and>
   nested_events ! 2 \<in> set (timed_events nested_events) \<and>
   the (start_dt (nested_events ! 1)) \<le> the (start_dt (nested_events ! 2)) \<and>
   the (start_dt (nested_events ! 2)) \<le> the (end_dt (nested_events ! 1)) \<and>
   (\<exists>xr wr xe we.
      event_x (timed_events nested_events) 1 = Some xr \<and>
      event_w (timed_events nested_events) 1 = Some wr \<and>
      event_x (timed_events nested_events) 2 = Some xe \<and>
      event_w (timed_events nested_events) 2 = Some we \<and>
      xe + we \<le> xr + wr)"
proof -
  let ?E = "nested_events"
  have rd: "read_events_from_excel nested_rows = Inr ?E" by (rule read_nested_rows)
  have d: "distinct (map event_id ?E)" using rd by (rule distinct_ids_read)
  have r: "?E ! 1 \<in> set (timed_events ?E)"
    unfolding set_timed_events by (simp add: nested_events_def nested_rows_def read_eval)
  have e: "?E ! 2 \<in> set (timed_events ?E)"
    unfolding set_timed_events by (simp add: nested_events_def nested_rows_def read_eval)
  have ir: "is_range (?E ! 1)" by (simp add: nested_events_def nested_rows_def read_eval is_range_def)
  have ne: "\<not> is_range (?E ! 2)" by (simp add: nested_events_def nested_rows_def read_eval is_range_def)
  have c1: "the (start_dt (?E ! 1)) \<le> the (start_dt (?E ! 2))"
    by (simp add: nested_events_def nested_rows_def read_eval)
  have c2': "the (start_dt (?E ! 2)) \<le> the (end_dt (?E ! 1))"
    by (simp add: nested_events_def nested_rows_def read_eval)
  have i1: "event_id (?E ! 1) = 1" by (simp add: nested_events_def nested_rows_def read_eval)
  have i2: "event_id (?E ! 2) = 2" by (simp add: nested_events_def nested_rows_def read_eval)
  from range_reaches_contained_slots[OF d r ir e c1 c2'] ne
  have "\<exists>xr wr xe we.
      event_x (timed_events ?E) 1 = Some xr \<and>
      event_w (timed_events ?E) 1 = Some wr \<and>
      event_x (timed_events ?E) 2 = Some xe \<and>
      event_w (timed_events ?E) 2 = Some we \<and>
      xe + we \<le> xr + wr"
    unfolding i1 i2 by fastforce
  with rd d r ir e c1 c2' show ?thesis by (intro conjI)
qed

text \<open>
  Claim C2 as stated fails: in \<open>nested_rows\<close> the second range starts inside the first
  and is itself widened to cover the later point event, so that its far edge 818 lies beyond
  the far edge 564 of the first range.
\<close>

theorem range_short_of_widened_event:
  "read_events_from_excel nested_rows = Inr nested_events \<and>
   is_range (nested_events ! 0) \<and>
   the (start_dt (nested_events ! 0)) \<le> the (start_dt (nested_events ! 1)) \<and>
   the (start_dt (nested_events ! 1)) \<le> the (end_dt (nested_events ! 0)) \<and>
   the (event_x (timed_events nested_events) 0)
     + the (event_w (timed_events nested_events) 0)
   < the (event_x (timed_events nested_events) 1)
     + the (event_w (timed_events nested_events) 1)"
proof -
  have "is_range (nested_events ! 0) \<and>
   the (start_dt (nested_events ! 0)) \<le> the (start_dt (nested_events ! 1)) \<and>
   the (start_dt (nested_events ! 1)) \<le> the (end_dt (nested_events ! 0)) \<and>
   the (event_x (timed_events nested_events) 0)
     + the (event_w (timed_events nested_events) 0)
   < the (event_x (timed_events nested_events) 1)
     + the (event_w (timed_events nested_events) 1)"
    by (simp add: nested_events_def nested_rows_def read_events_from_excel_def make_event_def parse_date_time_def
      normalize_end_dt_def timed_events_def slot_sort_key_def microseconds_per_day_def Let_def
      is_range_def slot_of_def event_x_def event_w_def final_width_def range_max_slot_def
      max_slot_of_def x_start_def slot_width_def estimate_card_width_def card_text_def gap_def
      format_time_label_def strftime_HM_def two_digits_def timedelta_days_def)
  with read_nested_rows show ?thesis by (rule conjI)
qed

subsection \<open>Independence of the input order\<close>

lemma sort_key_perm_inj:
  assumes m: "mset xs = mset ys" and inj: "inj_on f (set xs)"
  shows "sort_key f xs = sort_key f ys"
proof (rule sym, rule properties_for_sort_key)
  show "mset (sort_key f xs) = mset ys" using m by simp
next
  show "sorted (map f (sort_key f xs))" by simp
next
  fix k assume "k \<in> set (sort_key f xs)"
  then have k: "k \<in> set xs" by simp
  have sx: "set ys = set xs" using m by (metis mset_eq_setD)
  have a: "filter (\<lambda>x. f k = f x) zs = filter (HOL.eq k) zs" if "set zs = set xs" for zs
    by (rule filter_cong[OF refl]) (use inj k that in \<open>auto simp: inj_on_def\<close>)
  have "filter (\<lambda>x. f k = f x) (sort_key f xs) = filter (HOL.eq k) (sort_key f xs)"
    by (rule a) simp
  also have "\<dots> = replicate (count (mset (sort_key f xs)) k) k"
    by (rule replicate_count_mset_eq_filter_eq[symmetric])
  also have "\<dots> = replicate (count (mset ys) k) k" using m by simp
  also have "\<dots> = filter (HOL.eq k) ys" by (rule replicate_count_mset_eq_filter_eq)
  also have "\<dots> = filter (\<lambda>x. f k = f x) ys" by (rule a[OF sx, symmetric])
  finally show "filter (\<lambda>x. f k = f x) (sort_key f xs) = filter (\<lambda>x. f k = f x) ys" .
qed

lemma inj_on_ids:
  assumes "distinct (map event_id es)"
  shows "inj_on event_id (set es)"
  using assms by (simp add: distinct_map)

lemma inj_slot_sort_key: "inj_on event_id A \<Longrightarrow> inj_on slot_sort_key A"
  by (auto simp: inj_on_def slot_sort_key_def)

lemma inj_sort_key_core: "inj_on event_id A \<Longrightarrow> inj_on sort_key_core A"
  by (auto simp: inj_on_def sort_key_core_def)

lemma timed_events_perm:
  assumes "distinct (map event_id es)" "mset es' = mset es"
  shows "timed_events es' = timed_events es"
proof -
  let ?P = "\<lambda>e. start_dt e \<noteq> None"
  have m: "mset (filter ?P es) = mset (filter ?P es')" using assms(2) by simp
  have "inj_on event_id (set (filter ?P es))"
    using inj_on_ids[OF assms(1)] by (rule inj_on_subset) auto
  then have "inj_on slot_sort_key (set (filter ?P es))" by (rule inj_slot_sort_key)
  from sort_key_perm_inj[OF m this] show ?thesis by (simp add: timed_events_def)
qed

lemma mset_group_perm:
  assumes "mset es' = mset es"
  shows "mset (group_events_by_entity es' entity) = mset (group_events_by_entity es entity)"
proof -
  let ?g = "\<lambda>event. map (\<lambda>_. event) (filter (\<lambda>x. x = entity) (entities event))"
  have a: "mset (concat (map ?g zs)) = sum_mset (image_mset (\<lambda>e. mset (?g e)) (mset zs))" for zs
    by (induction zs) simp_all
  show ?thesis unfolding group_events_by_entity_def a assms ..
qed

lemma set_group_subset: "set (group_events_by_entity es entity) \<subseteq> set es"
  by (auto simp: group_events_by_entity_def)

lemma sorted_events_group_perm:
  assumes "distinct (map event_id es)" "mset es' = mset es"
  shows "sorted_events (group_events_by_entity es' entity) = sorted_events (group_events_by_entity es entity)"
proof -
  have m: "mset (group_events_by_entity es entity) = mset (group_events_by_entity es' entity)"
    using mset_group_perm[OF assms(2)] by simp
  have "inj_on event_id (set (group_events_by_entity es entity))"
    using inj_on_ids[OF assms(1)] set_group_subset by (rule inj_on_subset)
  then have "inj_on sort_key_core (set (group_events_by_entity es entity))" by (rule inj_sort_key_core)
  from sort_key_perm_inj[OF m this] show ?thesis by (simp add: sorted_events_def)
qed

text \<open>
  Claim C9. For event lists with distinct ids, the horizontal layout of a permutation of the
  list is the layout of the list: the slot, x and width tables are the same and every entity
  lane has the same subrows with the same cards, so every event keeps its x position, its
  width and its subrow index in each lane.
\<close>

theorem horizontal_layout_order_independent:
  assumes "distinct (map event_id events)" "mset events' = mset events"
  shows "horizontal_layout events' = horizontal_layout events"
proof -
  have t: "timed_events events' = timed_events events" using assms by (rule timed_events_perm)
  have s: "entity_subrows ex ew (group_events_by_entity events' entity)
         = entity_subrows ex ew (group_events_by_entity events entity)" for ex ew entity
    unfolding entity_subrows_def stack_events_def sorted_events_group_perm[OF assms] ..
  have n: "group_events_by_entity events' entity = [] \<longleftrightarrow> group_events_by_entity events entity = []" for entity
    using mset_group_perm[OF assms(2), of entity] by (metis mset_zero_iff)
  show ?thesis unfolding horizontal_layout_def Let_def t s n ..
qed

theorem horizontal_layout_order_independent_witness:
  "read_events_from_excel nested_rows = Inr nested_events \<and>
   distinct (map event_id nested_events) \<and>
   mset (rev nested_events) = mset nested_events \<and>
   horizontal_layout (rev nested_events)
     = horizontal_layout nested_events"
proof -
  have r: "read_events_from_excel nested_rows = Inr nested_events" by (rule read_nested_rows)
  have d: "distinct (map event_id nested_events)" using r by (rule distinct_ids_read)
  have m: "mset (rev nested_events) = mset nested_events"
    by simp
  from horizontal_layout_order_independent[OF d m] r d m show ?thesis by (intro conjI)
qed

subsection \<open>Subrows hold no overlapping events\<close>

lemma chain_snoc:
  assumes "chain sub" "card_ok c" "\<forall>a\<in>set sub. card_start a \<le> card_start c"
      and "\<not> blocked (card_event c) sub"
      and ce: "card_end_dt c = (case end_dt (card_event c) of Some e \<Rightarrow> e | None \<Rightarrow> the (start_dt (card_event c)))"
  shows "chain (sub @ [c])"
proof (cases "sub = []")
  case True
  with assms(2) show ?thesis by (simp add: chain_def)
next
  case False
  then obtain bl l where sub: "sub = bl @ [l]" by (metis rev_exhaust)
  have lok: "card_ok l" using assms(1) sub by (simp add: chain_def)
  have "\<not> overlaps (card_start c) (card_end_dt c) (card_start l) (card_end_dt l)"
    using assms(4) False assms(2) lok sub
    by (auto simp add: blocked_def Let_def card_ok_def card_start_def ce)
  moreover have "card_start l \<le> card_start c" using assms(3) sub by simp
  moreover have "card_start c \<le> card_end_dt c" using assms(2) by (simp add: card_ok_def)
  ultimately have lc: "card_end_dt l < card_start c" by (simp add: overlaps_def)
  have "before a c" if "a \<in> set sub" for a
  proof (cases "a = l")
    case True with lc show ?thesis by (simp add: before_def)
  next
    case False
    with that sub have "a \<in> set bl" by simp
    then have "before a l" using assms(1) sub by (simp add: chain_def sorted_wrt_append)
    moreover have "card_start l \<le> card_end_dt l" using lok by (simp add: card_ok_def)
    ultimately show ?thesis using lc by (simp add: before_def)
  qed
  then show ?thesis using assms(1,2) by (simp add: chain_def sorted_wrt_append)
qed

lemma chain_place:
  assumes "\<forall>sub\<in>set rows. chain sub" "card_ok c"
      and "\<forall>sub\<in>set rows. \<forall>a\<in>set sub. card_start a \<le> card_start c"
      and "card_end_dt c = (case end_dt (card_event c) of Some e \<Rightarrow> e | None \<Rightarrow> the (start_dt (card_event c)))"
  shows "\<forall>sub\<in>set (place c rows). chain sub"
  using assms
proof (induction rows)
  case Nil
  then show ?case by (simp add: chain_def)
next
  case (Cons sub rows)
  show ?case
  proof (cases "blocked (card_event c) sub")
    case True
    with Cons show ?thesis by simp
  next
    case False
    have "chain (sub @ [c])"
      using False Cons.prems by (intro chain_snoc) simp_all
    with False Cons.prems show ?thesis by simp
  qed
qed

lemma set_concat_place: "set (concat (place c rows)) = insert c (set (concat rows))"
proof -
  have "set (concat (place c rows)) = set_mset (mset (concat (place c rows)))" by simp
  also have "\<dots> = insert c (set (concat rows))" by (simp only: mset_concat_place) simp
  finally show ?thesis .
qed

lemma card_ok_make_card:
  assumes "start_dt x \<noteq> None" "end_not_before_start x"
  shows "card_ok (make_card ex ew x)"
  using assms
  by (auto simp: card_ok_def make_card_def card_start_def end_not_before_start_def
      effective_end_dt_def split: option.splits)

lemma card_start_make_card [simp]: "card_start (make_card ex ew x) = the (start_dt x)"
  by (simp add: card_start_def make_card_def)

lemma card_end_make_card:
  "card_end_dt (make_card ex ew x) =
     (case end_dt (card_event (make_card ex ew x)) of Some e \<Rightarrow> e
      | None \<Rightarrow> the (start_dt (card_event (make_card ex ew x))))"
  by (cases "end_dt x") (simp_all add: make_card_def)

lemma chain_stack_fold:
  assumes "\<forall>sub\<in>set rows. chain sub"
      and "\<forall>c\<in>set (concat rows). \<forall>x\<in>set xs. start_dt x \<noteq> None \<longrightarrow> card_start c \<le> the (start_dt x)"
      and "sorted_wrt starts_ascend xs"
      and "\<forall>x\<in>set xs. end_not_before_start x"
  shows "\<forall>sub\<in>set (fold (stack_step ex ew) xs rows). chain sub"
  using assms
proof (induction xs arbitrary: rows)
  case Nil
  then show ?case by simp
next
  case (Cons x xs)
  show ?case
  proof (cases "start_dt x = None")
    case True
    have "\<forall>sub\<in>set (fold (stack_step ex ew) xs rows). chain sub"
      using Cons.prems by (intro Cons.IH) simp_all
    moreover have "stack_step ex ew x rows = rows" using True by (simp add: stack_step_def)
    ultimately show ?thesis by simp
  next
    case False
    let ?c = "make_card ex ew x"
    have ok: "card_ok ?c" using False Cons.prems(4) by (intro card_ok_make_card) simp_all
    have b: "\<forall>sub\<in>set rows. \<forall>a\<in>set sub. card_start a \<le> card_start ?c"
      using Cons.prems(2) False by auto
    have 1: "\<forall>sub\<in>set (place ?c rows). chain sub"
      using Cons.prems(1) ok b card_end_make_card by (rule chain_place)
    have 2: "\<forall>c\<in>set (concat (place ?c rows)). \<forall>y\<in>set xs. start_dt y \<noteq> None \<longrightarrow> card_start c \<le> the (start_dt y)"
    proof (intro ballI impI)
      fix c y assume c: "c \<in> set (concat (place ?c rows))" and y: "y \<in> set xs" "start_dt y \<noteq> None"
      from c have "c = ?c \<or> c \<in> set (concat rows)" by (simp only: set_concat_place insert_iff)
      then show "card_start c \<le> the (start_dt y)"
      proof
        assume "c = ?c"
        moreover have "starts_ascend x y" using Cons.prems(3) y(1) by simp
        ultimately show ?thesis using False y(2) by (simp add: starts_ascend_def)
      next
        assume c': "c \<in> set (concat rows)"
        have "y \<in> set (x # xs)" using y(1) by simp
        from Cons.prems(2)[rule_format, OF c' this y(2)] show ?thesis .
      qed
    qed
    have "\<forall>sub\<in>set (fold (stack_step ex ew) xs (place ?c rows)). chain sub"
      using 1 2 Cons.prems(3,4) by (intro Cons.IH) simp_all
    moreover have "stack_step ex ew x rows = place ?c rows" using False by (auto simp add: stack_step_def)
    ultimately show ?thesis by simp
  qed
qed

lemma sorted_events_ascend: "sorted_wrt starts_ascend (sorted_events zs)"
proof -
  have "sorted (map sort_key_core (sorted_events zs))" by (simp add: sorted_events_def)
  then have "sorted_wrt (\<lambda>a b. sort_key_core a \<le> sort_key_core b) (sorted_events zs)"
    by (simp only: sorted_map)
  then show ?thesis
    by (rule sorted_wrt_mono_rel[rotated]) (auto simp: starts_ascend_def sort_key_core_def)
qed

lemma set_sorted_events [simp]: "set (sorted_events zs) = set zs"
  by (simp add: sorted_events_def)

lemma chain_stack_events:
  assumes "\<forall>x\<in>set zs. end_not_before_start x"
  shows "\<forall>sub\<in>set (stack_events ex ew zs). chain sub"
  unfolding stack_events_def
  using assms by (intro chain_stack_fold) (simp_all add: sorted_events_ascend)

lemma before_apart:
  assumes "before a b" "card_ok a" "card_ok b"
  shows "apart a b"
proof -
  have "card_end_dt a < card_start b" using assms(1) by (simp add: before_def)
  moreover have "card_start b \<le> card_end_dt b" using assms(3) by (simp add: card_ok_def)
  ultimately show ?thesis by (auto simp: apart_def overlaps_def)
qed

lemma apart_sym: "apart a b \<Longrightarrow> apart b a"
  by (auto simp: apart_def overlaps_def)

lemma chain_apart: "chain sub \<Longrightarrow> sorted_wrt apart sub"
  unfolding chain_def
  by (elim conjE, rule sorted_wrt_mono_rel[rotated], assumption) (simp add: before_apart)

lemma sorted_wrt_apart_iff:
  "sorted_wrt apart xs \<longleftrightarrow> distinct xs \<and> (\<forall>a\<in>set xs. \<forall>b\<in>set xs. a \<noteq> b \<longrightarrow> apart a b)"
proof (induction xs)
  case Nil show ?case by simp
next
  case (Cons x xs)
  have ne: "apart x y \<Longrightarrow> x \<noteq> y" for y by (simp add: apart_def)
  show ?case
  proof
    assume l: "sorted_wrt apart (x # xs)"
    then have 1: "\<forall>y\<in>set xs. apart x y" and 2: "sorted_wrt apart xs" by simp_all
    from 2 Cons.IH have 3: "distinct xs" and 4: "\<forall>a\<in>set xs. \<forall>b\<in>set xs. a \<noteq> b \<longrightarrow> apart a b" by simp_all
    have "x \<notin> set xs" using 1 ne by blast
    moreover have "\<forall>a\<in>set (x # xs). \<forall>b\<in>set (x # xs). a \<noteq> b \<longrightarrow> apart a b"
      using 1 4 apart_sym by auto
    ultimately show "distinct (x # xs) \<and> (\<forall>a\<in>set (x # xs). \<forall>b\<in>set (x # xs). a \<noteq> b \<longrightarrow> apart a b)"
      using 3 by simp
  next
    assume r: "distinct (x # xs) \<and> (\<forall>a\<in>set (x # xs). \<forall>b\<in>set (x # xs). a \<noteq> b \<longrightarrow> apart a b)"
    then have "sorted_wrt apart xs" using Cons.IH by simp
    moreover have "\<forall>y\<in>set xs. apart x y" using r by auto
    ultimately show "sorted_wrt apart (x # xs)" by simp
  qed
qed

lemma sorted_wrt_apart_perm:
  assumes "mset ys = mset xs" "sorted_wrt apart xs"
  shows "sorted_wrt apart ys"
proof -
  have "set ys = set xs" using assms(1) by (rule mset_eq_setD)
  moreover have "distinct ys \<longleftrightarrow> distinct xs" using assms(1) by (rule mset_eq_imp_distinct_iff)
  ultimately show ?thesis using assms(2) by (simp add: sorted_wrt_apart_iff)
qed

lemma card_ok_place:
  assumes "\<forall>c\<in>set (concat rows). card_ok c" "card_ok c0"
  shows "\<forall>c\<in>set (concat (place c0 rows)). card_ok c"
  unfolding set_concat_place using assms by simp

lemma card_ok_stack_step:
  assumes "\<forall>c\<in>set (concat rows). card_ok c" "end_not_before_start x"
  shows "\<forall>c\<in>set (concat (stack_step ex ew x rows)). card_ok c"
proof (cases "start_dt x = None")
  case True
  then have "stack_step ex ew x rows = rows" by (simp add: stack_step_def)
  with assms(1) show ?thesis by simp
next
  case False
  then have "stack_step ex ew x rows = place (make_card ex ew x) rows" by (auto simp add: stack_step_def)
  moreover have "card_ok (make_card ex ew x)" using False assms(2) by (rule card_ok_make_card)
  ultimately show ?thesis using card_ok_place[OF assms(1)] by simp
qed

lemma card_ok_stack_fold:
  assumes "\<forall>c\<in>set (concat rows). card_ok c" "\<forall>x\<in>set xs. end_not_before_start x"
  shows "\<forall>c\<in>set (concat (fold (stack_step ex ew) xs rows)). card_ok c"
  using assms
proof (induction xs arbitrary: rows)
  case Nil
  then show ?case by simp
next
  case (Cons x xs)
  have "\<forall>c\<in>set (concat (stack_step ex ew x rows)). card_ok c"
    using Cons.prems by (intro card_ok_stack_step) simp_all
  moreover have "\<forall>x\<in>set xs. end_not_before_start x" using Cons.prems(2) by simp
  ultimately have "\<forall>c\<in>set (concat (fold (stack_step ex ew) xs (stack_step ex ew x rows))). card_ok c"
    by (rule Cons.IH)
  then show ?case by simp
qed

lemma entity_subrows_apart:
  assumes "\<forall>x\<in>set zs. end_not_before_start x" "sr \<in> set (entity_subrows ex ew zs)"
  shows "sorted_wrt apart sr \<and> (\<forall>c\<in>set sr. card_ok c)"
proof -
  from assms(2) have "sr \<in> sort_key card_x ` set (stack_events ex ew zs)"
    by (simp add: entity_subrows_def)
  then obtain sub where sr: "sr = sort_key card_x sub" and sub: "sub \<in> set (stack_events ex ew zs)"
    by (rule imageE)
  have "chain sub" using chain_stack_events[OF assms(1)] sub by (rule bspec)
  then have ap: "sorted_wrt apart sub" by (rule chain_apart)
  have m: "mset sr = mset sub" unfolding sr by simp
  have 1: "sorted_wrt apart sr" using m ap by (rule sorted_wrt_apart_perm)
  have ok: "\<forall>c\<in>set (concat (stack_events ex ew zs)). card_ok c"
    unfolding stack_events_def
  proof (rule card_ok_stack_fold)
    show "\<forall>c\<in>set (concat []). card_ok c" by simp
    show "\<forall>x\<in>set (sorted_events zs). end_not_before_start x" using assms(1) by simp
  qed
  have 2: "\<forall>c\<in>set sr. card_ok c"
  proof
    fix c assume "c \<in> set sr"
    then have "c \<in> set sub" unfolding sr by simp
    with sub have "c \<in> set (concat (stack_events ex ew zs))" by auto
    with ok show "card_ok c" by (rule bspec)
  qed
  from 1 2 show ?thesis ..
qed

lemma make_event_wf:
  assumes "valid_times row" "make_event idx row = Inr ev"
  shows "end_not_before_start ev"
  using assms
  by (auto simp: valid_times_def valid_time_cell_def end_not_before_start_def make_event_def
      Let_def parse_date_time_def normalize_end_dt_def timedelta_days_def microseconds_per_day_def
      split: option.splits time_cell.splits if_splits sum.splits)

lemma read_rows_wf:
  assumes "\<forall>row\<in>set rows. valid_times row" "read_rows n rows = Inr es"
  shows "\<forall>e\<in>set es. end_not_before_start e"
  using assms
proof (induction rows arbitrary: n es)
  case Nil
  then show ?case by simp
next
  case (Cons row rows)
  from Cons.prems(2) obtain ev evs where m: "make_event n row = Inr ev"
    and r: "read_rows (Suc n) rows = Inr evs" and es: "es = ev # evs"
    by (auto split: sum.splits)
  have v: "valid_times row" and vs: "\<forall>row\<in>set rows. valid_times row"
    using Cons.prems(1) by simp_all
  from make_event_wf[OF v m] Cons.IH[OF vs r] es show ?case by simp
qed

lemma read_events_wf:
  assumes "\<forall>row\<in>set rows. valid_times row" "read_events_from_excel rows = Inr es"
  shows "\<forall>e\<in>set es. end_not_before_start e"
  using assms unfolding read_events_from_excel_def by (rule read_rows_wf)

lemma lanes_apart:
  assumes wf: "\<forall>e\<in>set events. end_not_before_start e"
      and g: "horizontal_layout events = Inr g" "geo_layout g entity = Some subrows"
      and sr: "sr \<in> set subrows" "i < j" "j < length sr"
  shows "\<not> overlaps (the (start_dt (card_event (sr ! i)))) (effective_end_dt (card_event (sr ! i)))
                     (the (start_dt (card_event (sr ! j)))) (effective_end_dt (card_event (sr ! j)))"
proof -
  let ?zs = "group_events_by_entity events entity"
  from g obtain ex ew where "subrows = entity_subrows ex ew ?zs"
    by (auto simp: horizontal_layout_def Let_def split: if_splits)
  with sr(1) have m: "sr \<in> set (entity_subrows ex ew ?zs)" by simp
  have "\<forall>x\<in>set ?zs. end_not_before_start x" using wf set_group_subset by blast
  from entity_subrows_apart[OF this m]
  have a: "sorted_wrt apart sr" and ok: "\<forall>c\<in>set sr. card_ok c" by simp_all
  have "apart (sr ! i) (sr ! j)" using a sr(2,3) by (rule sorted_wrt_nth_less)
  moreover have "card_ok (sr ! i)" "card_ok (sr ! j)" using ok sr(2,3) by simp_all
  ultimately show ?thesis by (simp add: apart_def card_ok_def card_start_def)
qed

lemma lane_lengths:
  "map length (entity_subrows ex ew (group_events_by_entity nested_events ''A''))
   = [2, 1]"
proof -
  have "map length (stack_events ex ew (group_events_by_entity nested_events ''A''))
   = [2, 1]"
    by (simp add: nested_events_def nested_rows_def read_eval group_events_by_entity_def stack_events_def
      sorted_events_def sort_key_core_def is_range_def stack_step_def blocked_def overlaps_def make_card_def)
  then show ?thesis by (simp add: entity_subrows_def comp_def)
qed

text \<open>
  Claim C1. In the horizontal layout of the events read from rows whose times of day lie
  within one day, any two cards at different positions of one subrow of one entity lane
  hold events whose closed intervals [start, effective end] do not overlap under the
  boundary-inclusive test, although the loop compares a new event with the last card of
  each subrow only.
\<close>

theorem subrows_never_overlap:
  assumes "\<forall>row\<in>set rows. valid_times row"
      and "generate_horizontal_timeline rows = Inr g" "geo_layout g entity = Some subrows"
      and "sr \<in> set subrows" "i < j" "j < length sr"
  shows "\<not> overlaps (the (start_dt (card_event (sr ! i)))) (effective_end_dt (card_event (sr ! i)))
                     (the (start_dt (card_event (sr ! j)))) (effective_end_dt (card_event (sr ! j)))"
proof -
  from assms(2) obtain events where r: "read_events_from_excel rows = Inr events"
    and h: "horizontal_layout events = Inr g"
    by (auto simp: generate_horizontal_timeline_def split: sum.splits)
  from read_events_wf[OF assms(1) r] h assms(3-6) show ?thesis by (rule lanes_apart)
qed

theorem subrows_never_overlap_witness:
  "\<exists>g subrows.
     generate_horizontal_timeline nested_rows = Inr g \<and> geo_layout g ''A'' = Some subrows \<and>
     hd subrows \<in> set subrows \<and> length (hd subrows) = 2 \<and>
     \<not> overlaps (the (start_dt (card_event (hd subrows ! 0)))) (effective_end_dt (card_event (hd subrows ! 0)))
                 (the (start_dt (card_event (hd subrows ! 1)))) (effective_end_dt (card_event (hd subrows ! 1)))"
proof -
  let ?E = "nested_events"
  let ?T = "timed_events ?E"
  let ?S = "entity_subrows (event_x ?T) (event_w ?T) (group_events_by_entity ?E ''A'')"
  have v: "\<forall>row\<in>set nested_rows. valid_times row"
    by (simp add: nested_rows_def valid_times_def valid_time_cell_def microseconds_per_day_def)
  have ne: "?T \<noteq> []"
    by (simp add: timed_events_Nil nested_events_def nested_rows_def read_eval)
  have gne: "group_events_by_entity ?E ''A'' \<noteq> []"
    by (simp add: group_events_by_entity_def nested_events_def nested_rows_def read_eval)
  obtain g where g: "generate_horizontal_timeline nested_rows = Inr g" and l: "geo_layout g ''A'' = Some ?S"
    using ne gne
    by (simp add: generate_horizontal_timeline_def read_nested_rows horizontal_layout_def Let_def)
  have len: "map length ?S = [2, 1]" by (rule lane_lengths)
  then have sne: "?S \<noteq> []" by auto
  then have h: "hd ?S \<in> set ?S" by simp
  have l2: "length (hd ?S) = 2" using len sne by (cases ?S) simp_all
  have j: "(1::nat) < length (hd ?S)" using l2 by simp
  have "\<not> overlaps (the (start_dt (card_event (hd ?S ! 0)))) (effective_end_dt (card_event (hd ?S ! 0)))
                 (the (start_dt (card_event (hd ?S ! 1)))) (effective_end_dt (card_event (hd ?S ! 1)))"
    using subrows_never_overlap[OF v g l h _ j] by simp
  with g l h l2 show ?thesis by (intro exI conjI)
qed

subsection \<open>Colours of entities\<close>

lemma casefold_Alice: "ascii_casefold ''Alice'' = ''alice''" "ascii_casefold ''alice'' = ''alice''"
  by (simp_all add: ascii_casefold_def ascii_casefold_char_def, code_simp)

lemma str_nat_24: "str_nat 24 = ''24''" "str_nat 161 = ''161''"
  by code_simp+

lemma keep_first_eq: "keep_first xs = fold kf_step xs []"
  unfolding keep_first_def kf_step_def by (rule refl)

lemma set_kf_fold: "set (fold kf_step xs acc) = set acc \<union> set xs"
  by (induction xs arbitrary: acc) (auto simp: kf_step_def)

lemma distinct_kf_fold: "distinct acc \<Longrightarrow> distinct (fold kf_step xs acc)"
  by (induction xs arbitrary: acc) (auto simp: kf_step_def)

lemma sorted_kf_fold:
  "sorted (map f (acc @ xs)) \<Longrightarrow> sorted (map f (fold kf_step xs acc))"
proof (induction xs arbitrary: acc)
  case Nil then show ?case by simp
next
  case (Cons x xs)
  show ?case
  proof (cases "x \<in> set acc")
    case True
    from Cons.prems have "sorted (map f (acc @ xs))"
      by (simp add: sorted_append)
    from Cons.IH[OF this] True show ?thesis by (simp add: kf_step_def)
  next
    case False
    from Cons.prems have "sorted (map f ((acc @ [x]) @ xs))" by simp
    from Cons.IH[OF this] False show ?thesis by (simp add: kf_step_def)
  qed
qed

lemma set_ordered_entities: "set (ordered_entities cf es) = set es"
  by (simp add: ordered_entities_def keep_first_eq set_kf_fold)

lemma distinct_ordered_entities: "distinct (ordered_entities cf es)"
  by (simp add: ordered_entities_def keep_first_eq distinct_kf_fold)

lemma sorted_ordered_entities: "sorted (map cf (ordered_entities cf es))"
  unfolding ordered_entities_def keep_first_eq
  by (rule sorted_kf_fold) simp

lemma ordered_entities_unique:
  assumes "set es' = set es" "inj_on cf (set es)"
  shows "ordered_entities cf es' = ordered_entities cf es"
proof -
  let ?a = "ordered_entities cf es'" and ?b = "ordered_entities cf es"
  have ia: "inj_on cf (set ?a)" and ib: "inj_on cf (set ?b)"
    using assms by (simp_all add: set_ordered_entities)
  have "distinct (map cf ?a)" "distinct (map cf ?b)"
    using ia ib by (simp_all add: distinct_map distinct_ordered_entities)
  moreover have "set (map cf ?a) = set (map cf ?b)"
    using assms(1) by (simp add: set_ordered_entities)
  ultimately have "map cf ?a = map cf ?b"
    using sorted_ordered_entities[of cf es'] sorted_ordered_entities[of cf es]
    by (intro sorted_distinct_set_unique)
  moreover have "inj_on cf (set ?a \<union> set ?b)"
    using assms by (simp add: set_ordered_entities)
  ultimately show ?thesis by (simp add: inj_on_map_eq_map)
qed

lemma build_entity_colors_eq:
  "build_entity_colors cf es =
     fold (\<lambda>p colors. colors(snd p \<mapsto> hsl_color (hue_of_index (fst p))))
          (enumerate 0 (ordered_entities cf es)) Map.empty"
  by (simp add: build_entity_colors_def case_prod_unfold)

lemma map_snd_enumerate_fun: "map (\<lambda>p. snd p) (enumerate n xs) = xs"
  by (induction xs arbitrary: n) simp_all

lemma build_entity_colors_nth:
  assumes "i < length (ordered_entities cf es)"
  shows "build_entity_colors cf es (ordered_entities cf es ! i) = Some (hsl_color (hue_of_index i))"
proof -
  have d: "distinct (map (\<lambda>p. snd p) (enumerate 0 (ordered_entities cf es)))"
    by (simp only: map_snd_enumerate_fun distinct_ordered_entities)
  have m: "(i, ordered_entities cf es ! i) \<in> set (enumerate 0 (ordered_entities cf es))"
    using assms by (simp add: in_set_enumerate_eq)
  show ?thesis
    unfolding build_entity_colors_eq
    using fold_upd_distinct[OF d m, of "\<lambda>p. hsl_color (hue_of_index (fst p))" Map.empty] by simp
qed

lemma dom_build_entity_colors: "dom (build_entity_colors cf es) = set es"
proof -
  have "snd ` set (enumerate 0 (ordered_entities cf es)) = set (map snd (enumerate 0 (ordered_entities cf es)))"
    by (rule set_map[symmetric])
  also have "\<dots> = set es" by (simp only: map_snd_enumerate set_ordered_entities)
  finally show ?thesis unfolding build_entity_colors_eq dom_fold_upd by simp
qed

lemma casefold_bob: "ascii_casefold ''bob'' = ''bob''"
  by (simp add: ascii_casefold_def ascii_casefold_char_def)

lemma ordered_Alice_bob: "ordered_entities ascii_casefold [''Alice'', ''bob''] = [''Alice'', ''bob'']"
  by (simp add: ordered_entities_def keep_first_def casefold_Alice casefold_bob)

text \<open>
  Claim C7, as amended. Whatever function \<open>casefold\<close> is, the entities are sorted by
  their case-folded names with a stable sort and duplicates are dropped; the entity at
  position \<open>index\<close> of that list receives the hue \<open>(24 + index * 137.508) mod 360\<close>,
  truncated to an integer, with saturation 60% and lightness 68%. When no two distinct names
  of the entity set have the same case-folded form, the colours do not depend on the order
  in which the entities are given.
\<close>

theorem entity_colors_by_sorted_index:
  "sorted (map cf (ordered_entities cf es)) \<and> distinct (ordered_entities cf es) \<and>
   set (ordered_entities cf es) = set es \<and> dom (build_entity_colors cf es) = set es \<and>
   (\<forall>i<length (ordered_entities cf es).
      build_entity_colors cf es (ordered_entities cf es ! i)
        = Some (''hsl('' @ str_nat (((24000 + i * 137508) mod 360000) div 1000) @ '', 60%, 68%)'')) \<and>
   (set es' = set es \<and> inj_on cf (set es) \<longrightarrow>
      build_entity_colors cf es' = build_entity_colors cf es)"
proof (intro conjI allI impI)
  show "sorted (map cf (ordered_entities cf es))" by (rule sorted_ordered_entities)
  show "distinct (ordered_entities cf es)" by (rule distinct_ordered_entities)
  show "set (ordered_entities cf es) = set es" by (rule set_ordered_entities)
  show "dom (build_entity_colors cf es) = set es" by (rule dom_build_entity_colors)
next
  fix i assume "i < length (ordered_entities cf es)"
  from build_entity_colors_nth[OF this]
  show "build_entity_colors cf es (ordered_entities cf es ! i)
        = Some (''hsl('' @ str_nat (((24000 + i * 137508) mod 360000) div 1000) @ '', 60%, 68%)'')"
    by (simp add: hsl_color_def hue_of_index_def)
next
  assume "set es' = set es \<and> inj_on cf (set es)"
  then have "ordered_entities cf es' = ordered_entities cf es" by (intro ordered_entities_unique) simp_all
  then show "build_entity_colors cf es' = build_entity_colors cf es"
    by (simp add: build_entity_colors_def)
qed

theorem entity_colors_by_sorted_index_witness:
  "build_entity_colors ascii_casefold [''bob'', ''Alice''] = build_entity_colors ascii_casefold [''Alice'', ''bob''] \<and>
   build_entity_colors ascii_casefold [''Alice'', ''bob''] ''bob'' = Some ''hsl(161, 60%, 68%)''"
proof -
  have s: "set [''bob'', ''Alice''] = set [''Alice'', ''bob'']" by auto
  have i: "inj_on ascii_casefold (set [''Alice'', ''bob''])"
    by (simp add: casefold_Alice casefold_bob)
  have l: "1 < length (ordered_entities ascii_casefold [''Alice'', ''bob''])" by (simp add: ordered_Alice_bob)
  note c = entity_colors_by_sorted_index[of ascii_casefold "[''Alice'', ''bob'']" "[''bob'', ''Alice'']"]
  from c s i have 1: "build_entity_colors ascii_casefold [''bob'', ''Alice''] = build_entity_colors ascii_casefold [''Alice'', ''bob'']"
    by blast
  from c l have "build_entity_colors ascii_casefold [''Alice'', ''bob''] (ordered_entities ascii_casefold [''Alice'', ''bob''] ! 1)
        = Some (''hsl('' @ str_nat (((24000 + 1 * 137508) mod 360000) div 1000) @ '', 60%, 68%)'')"
    by blast
  then have 2: "build_entity_colors ascii_casefold [''Alice'', ''bob''] ''bob'' = Some ''hsl(161, 60%, 68%)''"
    by (simp add: ordered_Alice_bob str_nat_24)
  from 1 2 show ?thesis ..
qed

text \<open>
  Claim C7 as stated fails: for the same entity set given in two orders, the names
  \<open>Alice\<close> and \<open>alice\<close>, equal after case folding, keep the order in which they were
  given, and \<open>alice\<close> receives hue 161 in one order and hue 24 in the other. The names are
  ASCII, where \<open>str.casefold\<close> is \<open>ascii_casefold\<close>.
\<close>

theorem entity_colors_depend_on_order_of_case_variants:
  "set [''Alice'', ''alice''] = set [''alice'', ''Alice''] \<and>
   build_entity_colors ascii_casefold [''Alice'', ''alice''] ''alice'' = Some ''hsl(161, 60%, 68%)'' \<and>
   build_entity_colors ascii_casefold [''alice'', ''Alice''] ''alice'' = Some ''hsl(24, 60%, 68%)''"
  by (simp add: build_entity_colors_def ordered_entities_def keep_first_def casefold_Alice
      hsl_color_def hue_of_index_def insert_commute str_nat_24 del: str_nat.simps)

subsection \<open>Stacked blocks of the vertical layout\<close>

lemma set_keep_first: "set (keep_first xs) = set xs"
  by (simp add: keep_first_eq set_kf_fold)

lemma distinct_keep_first: "distinct (keep_first xs)"
  by (simp add: keep_first_eq distinct_kf_fold)

lemma set_uniqueStarts: "set (uniqueStarts evs) = js_start_ms ` set evs"
  by (simp add: uniqueStarts_def set_keep_first)

lemma distinct_uniqueStarts: "distinct (uniqueStarts evs)"
  by (simp add: uniqueStarts_def distinct_keep_first)

lemma sorted_uniqueStarts: "sorted (uniqueStarts evs)"
  by (simp add: uniqueStarts_def)

lemma slotOfId_eq:
  "slotOfId starts = fold (\<lambda>p m. m(snd p \<mapsto> fst p)) (enumerate 0 starts) Map.empty"
  by (simp add: slotOfId_def case_prod_unfold)

lemma slotOfId_nth:
  assumes "distinct starts" "i < length starts"
  shows "slotOfId starts (starts ! i) = Some i"
proof -
  have d: "distinct (map (\<lambda>p. snd p) (enumerate 0 starts))"
    using assms(1) by (simp only: map_snd_enumerate_fun)
  have m: "(i, starts ! i) \<in> set (enumerate 0 starts)"
    using assms(2) by (simp add: in_set_enumerate_eq)
  show ?thesis
    unfolding slotOfId_eq using fold_upd_distinct[OF d m, of fst Map.empty] by simp
qed

lemma slot_of_start:
  assumes "e \<in> set evs"
  shows "\<exists>slot. slotOfId (uniqueStarts evs) (js_start_ms e) = Some slot \<and>
           slot < length (uniqueStarts evs) \<and> uniqueStarts evs ! slot = js_start_ms e"
proof -
  from assms have "js_start_ms e \<in> set (uniqueStarts evs)" by (simp add: set_uniqueStarts)
  then obtain i where i: "i < length (uniqueStarts evs)" "uniqueStarts evs ! i = js_start_ms e"
    by (auto simp: in_set_conv_nth)
  from slotOfId_nth[OF distinct_uniqueStarts i(1)] i show ?thesis by auto
qed

lemma mset_normalByStart:
  "mset (normalByStart (sorted_evs events) s)
     = mset (filter (\<lambda>e. \<not> js_is_range e \<and> js_start_ms e = s) events)"
  by (simp add: normalByStart_def sorted_evs_def)

lemma length_normalByStart:
  "length (normalByStart (sorted_evs events) s)
     = length (filter (\<lambda>e. \<not> js_is_range e \<and> js_start_ms e = s) events)"
  using mset_normalByStart[of events s] by (metis size_mset)

lemma slotH_nth:
  assumes "i < length (uniqueStarts evs)" "0 < length (normalByStart evs (uniqueStarts evs ! i))"
  shows "slotH c evs ! i
         = max (rowH c) (34 + 20 + int (length (normalByStart evs (uniqueStarts evs ! i))) * 76
                          + (int (length (normalByStart evs (uniqueStarts evs ! i))) - 1) * 10)"
  using assms by (simp add: slotH_def Let_def headerH_def padH_def itemH_def itemGap_def)

lemma filter_concat_single:
  assumes "distinct us" "s \<in> set us" "\<And>u p. p \<in> set (F u) \<Longrightarrow> P p \<longleftrightarrow> u = s"
  shows "filter P (concat (map F us)) = F s"
  using assms(1,2)
proof (induction us)
  case Nil then show ?case by simp
next
  case (Cons u us)
  have other: "filter P (concat (map F vs)) = []" if "s \<notin> set vs" for vs
    using that assms(3) by (induction vs) (auto simp: filter_empty_conv)
  show ?case
  proof (cases "u = s")
    case True
    with Cons.prems have "s \<notin> set us" by simp
    from other[OF this] True assms(3)[of _ s] show ?thesis by (simp add: filter_id_conv)
  next
    case False
    with Cons.prems have "s \<in> set us" "distinct us" by simp_all
    from Cons.IH[OF this(2,1)] False assms(3)[of _ u] show ?thesis by (simp add: filter_empty_conv)
  qed
qed

lemma stacks_of_range_boxes: "filter (\<lambda>p. stack_start p = Some s) (range_boxes c evs) = []"
  by (simp add: range_boxes_def filter_empty_conv Let_def)

lemma stack_start_stack_box: "p \<in> set (stack_box c evs u) \<Longrightarrow> stack_start p = Some s \<longleftrightarrow> u = s"
  by (auto simp: stack_box_def Let_def split: if_splits)

lemma stacks_of_layout:
  assumes "s \<in> set (uniqueStarts (sorted_evs events))"
  shows "filter (\<lambda>p. stack_start p = Some s) (fst (layout c events)) = stack_box c (sorted_evs events) s"
proof -
  have "filter (\<lambda>p. stack_start p = Some s) (stack_boxes c (sorted_evs events)) = stack_box c (sorted_evs events) s"
    unfolding stack_boxes_def
    using distinct_uniqueStarts assms by (rule filter_concat_single) (rule stack_start_stack_box)
  then show ?thesis by (simp add: layout_def Let_def stacks_of_range_boxes)
qed

lemma str_nat_digits: "str_nat 0 = ''0''" "str_nat (Suc 0) = ''1''" "str_nat 2 = ''2''"
  by code_simp+

lemmas payload_eval = events_payload_def vertical_make_event_def payload_event_def
      parse_date_time_def timestamp_ms_def is_range_def microseconds_per_day_def Let_def

lemma events_payload_simultaneous:
  "events_payload simultaneous_rows =
     Inr (map (\<lambda>i. \<lparr> js_id = i, js_entities = [''A''], js_start_ms = 1714035600000,
                 js_end_ms = 1714035600000, js_is_range = False \<rparr>) [''0'', ''1'', ''2''])"
  by (simp add: simultaneous_rows_def payload_eval str_nat_digits numeral_3_eq_3)

lemma simultaneous_payload_eq:
  "simultaneous_payload =
     map (\<lambda>i. \<lparr> js_id = i, js_entities = [''A''], js_start_ms = 1714035600000,
                 js_end_ms = 1714035600000, js_is_range = False \<rparr>) [''0'', ''1'', ''2'']"
  by (simp add: simultaneous_payload_def events_payload_simultaneous)

text \<open>
  Claim C5. In the vertical layout, the start instant of a point (non-range) event has a
  slot, and with \<open>n\<close> the number of point events at that instant, the row height of the
  slot is the maximum of the default row height and 34 + 20 + n * 76 + (n - 1) * 10 (header
  height, padding, item height, item gap). The layout holds exactly one stacked block for
  that instant; its items are the \<open>n\<close> point events and its height is the row height of
  the slot. For three point events and the default row height 98 the block height is
  34 + 20 + 3 * 76 + 2 * 10 = 302.
\<close>

theorem stacked_block_height:
  assumes "e0 \<in> set events" "\<not> js_is_range e0"
  shows "\<exists>slot items x y w.
           slotOfId (uniqueStarts (sorted_evs events)) (js_start_ms e0) = Some slot \<and>
           slot < length (uniqueStarts (sorted_evs events)) \<and>
           uniqueStarts (sorted_evs events) ! slot = js_start_ms e0 \<and>
           slotH c (sorted_evs events) ! slot
             = max (rowH c)
                 (34 + 20
                  + int (length (filter (\<lambda>e. \<not> js_is_range e \<and> js_start_ms e = js_start_ms e0) events)) * 76
                  + (int (length (filter (\<lambda>e. \<not> js_is_range e \<and> js_start_ms e = js_start_ms e0) events)) - 1) * 10) \<and>
           filter (\<lambda>p. stack_start p = Some (js_start_ms e0)) (fst (layout c events))
             = [Stack (js_start_ms e0) items x y w (slotH c (sorted_evs events) ! slot)] \<and>
           mset items = mset (filter (\<lambda>e. \<not> js_is_range e \<and> js_start_ms e = js_start_ms e0) events)"
proof -
  let ?evs = "sorted_evs events"
  let ?s = "js_start_ms e0"
  let ?pts = "filter (\<lambda>e. \<not> js_is_range e \<and> js_start_ms e = ?s) events"
  have e0: "e0 \<in> set ?evs" using assms(1) by (simp add: sorted_evs_def)
  from slot_of_start[OF e0] obtain slot where
    slot: "slotOfId (uniqueStarts ?evs) ?s = Some slot" "slot < length (uniqueStarts ?evs)"
          "uniqueStarts ?evs ! slot = ?s" by blast
  have n: "length (normalByStart ?evs ?s) = length ?pts" by (rule length_normalByStart)
  have "e0 \<in> set ?pts" using assms by simp
  then have pos: "0 < length ?pts" by (rule length_pos_if_in_set)
  have h: "slotH c ?evs ! slot = max (rowH c) (34 + 20 + int (length ?pts) * 76 + (int (length ?pts) - 1) * 10)"
    using slotH_nth[OF slot(2), of c] pos unfolding slot(3) n by simp
  have ne: "normalByStart ?evs ?s \<noteq> []" using pos n by auto
  have sm: "?s \<in> set (uniqueStarts ?evs)" using slot(2,3) by (metis nth_mem)
  have "filter (\<lambda>p. stack_start p = Some ?s) (fst (layout c events)) = stack_box c ?evs ?s"
    using sm by (rule stacks_of_layout)
  also have "\<dots> = [Stack ?s (normalByStart ?evs ?s) (wrapArea c ?evs + gapX c) (yStart c ?evs ! slot)
                 (subcolW c * maxSubcols c + gapX c * (maxSubcols c - 1)) (slotH c ?evs ! slot)]"
    using ne slot(1) by (simp add: stack_box_def Let_def)
  finally have f: "filter (\<lambda>p. stack_start p = Some ?s) (fst (layout c events))
      = [Stack ?s (normalByStart ?evs ?s) (wrapArea c ?evs + gapX c) (yStart c ?evs ! slot)
                 (subcolW c * maxSubcols c + gapX c * (maxSubcols c - 1)) (slotH c ?evs ! slot)]" .
  have m: "mset (normalByStart ?evs ?s) = mset ?pts" by (rule mset_normalByStart)
  show ?thesis
    apply (rule exI[of _ slot], rule exI[of _ "normalByStart ?evs ?s"])
    apply (rule exI[of _ "wrapArea c ?evs + gapX c"], rule exI[of _ "yStart c ?evs ! slot"])
    apply (rule exI[of _ "subcolW c * maxSubcols c + gapX c * (maxSubcols c - 1)"])
    using slot h f m by (intro conjI) assumption+
qed

theorem stacked_block_height_witness:
  "\<exists>items x y w.
     events_payload simultaneous_rows = Inr simultaneous_payload \<and>
     filter (\<lambda>p. stack_start p = Some 1714035600000) (fst (layout cfg simultaneous_payload))
       = [Stack 1714035600000 items x y w 302] \<and> length items = 3"
proof -
  have ep: "events_payload simultaneous_rows = Inr simultaneous_payload"
    by (simp add: events_payload_simultaneous simultaneous_payload_eq)
  let ?e0 = "\<lparr> js_id = ''0'', js_entities = [''A''], js_start_ms = 1714035600000,
                 js_end_ms = 1714035600000, js_is_range = False \<rparr>"
  let ?E = "simultaneous_payload"
  have m: "?e0 \<in> set ?E" by (simp add: simultaneous_payload_eq)
  have r: "\<not> js_is_range ?e0" by simp
  have n: "length (filter (\<lambda>e. \<not> js_is_range e \<and> js_start_ms e = js_start_ms ?e0) ?E) = 3"
    by (simp add: simultaneous_payload_eq)
  from stacked_block_height[OF m r, of cfg] show ?thesis
  proof (elim exE conjE)
    fix slot items x y w
    assume h: "slotH cfg (sorted_evs ?E) ! slot
             = max (rowH cfg)
                 (34 + 20
                  + int (length (filter (\<lambda>e. \<not> js_is_range e \<and> js_start_ms e = js_start_ms ?e0) ?E)) * 76
                  + (int (length (filter (\<lambda>e. \<not> js_is_range e \<and> js_start_ms e = js_start_ms ?e0) ?E)) - 1) * 10)"
    and f: "filter (\<lambda>p. stack_start p = Some (js_start_ms ?e0)) (fst (layout cfg ?E))
             = [Stack (js_start_ms ?e0) items x y w (slotH cfg (sorted_evs ?E) ! slot)]"
    and i: "mset items = mset (filter (\<lambda>e. \<not> js_is_range e \<and> js_start_ms e = js_start_ms ?e0) ?E)"
    have h': "slotH cfg (sorted_evs ?E) ! slot = 302" unfolding h n by (simp add: cfg_def)
    have "size (mset items) = 3" unfolding i by (simp only: size_mset n)
    then have l: "length items = 3" by simp
    have f': "filter (\<lambda>p. stack_start p = Some 1714035600000) (fst (layout cfg ?E))
       = [Stack 1714035600000 items x y w 302]" using f h' by simp
    show ?thesis
      by (rule exI[of _ items], rule exI[of _ x], rule exI[of _ y], rule exI[of _ w]) (intro conjI ep f' l)
  qed
qed

subsection \<open>Wrapper columns of the vertical layout\<close>

lemma open_at_eq: "open_at ranges t = length (filter (\<lambda>r. open_in r t) ranges)"
  by (simp add: open_at_def open_in_def)

lemma first_free_None: "first_free s cs = None \<Longrightarrow> i < length cs \<Longrightarrow> s \<le> cs ! i"
proof (induction cs arbitrary: i)
  case Nil then show ?case by simp
next
  case (Cons c cs)
  from Cons.prems(1) have c: "\<not> s > c" and r: "first_free s cs = None"
    by (simp_all split: if_splits)
  show ?case
  proof (cases i)
    case 0 with c show ?thesis by simp
  next
    case (Suc k)
    with Cons.prems(2) have "k < length cs" by simp
    from Cons.IH[OF r this] Suc show ?thesis by simp
  qed
qed

lemma first_free_Some: "first_free s cs = Some i \<Longrightarrow> i < length cs \<and> cs ! i < s"
proof (induction cs arbitrary: i)
  case Nil then show ?case by simp
next
  case (Cons c cs)
  show ?case
  proof (cases "s > c")
    case True
    with Cons.prems show ?thesis by simp
  next
    case False
    with Cons.prems obtain k where k: "first_free s cs = Some k" "i = Suc k"
      by (auto split: if_splits)
    from Cons.IH[OF k(1)] k(2) show ?thesis by simp
  qed
qed

lemma cols_invD1: "cols_inv colEnd placed \<Longrightarrow> p \<in> set placed \<Longrightarrow> snd p < length colEnd"
  by (simp add: cols_inv_def)

lemma cols_invD2: "cols_inv colEnd placed \<Longrightarrow> p \<in> set placed \<Longrightarrow> js_end_ms (fst p) \<le> colEnd ! snd p"
  by (simp add: cols_inv_def)

lemma cols_invD3:
  "cols_inv colEnd placed \<Longrightarrow> c < length colEnd
     \<Longrightarrow> \<exists>p\<in>set placed. snd p = c \<and> js_end_ms (fst p) = colEnd ! c"
  by (simp add: cols_inv_def)

lemma cols_invD4:
  "cols_inv colEnd placed \<Longrightarrow> distinct (map snd (filter (\<lambda>p. open_in (fst p) t) placed))"
  by (simp add: cols_inv_def)

lemma cols_inv_new:
  assumes inv: "cols_inv colEnd placed"
  shows "cols_inv (colEnd @ [js_end_ms r]) (placed @ [(r, length colEnd)])"
  unfolding cols_inv_def
proof (intro conjI ballI allI impI)
  fix p assume "p \<in> set (placed @ [(r, length colEnd)])"
  then consider "p \<in> set placed" | "p = (r, length colEnd)" by auto
  then show "snd p < length (colEnd @ [js_end_ms r])"
  proof cases
    case 1 with cols_invD1[OF inv] show ?thesis by (simp add: less_SucI)
  next
    case 2 then show ?thesis by simp
  qed
next
  fix p assume "p \<in> set (placed @ [(r, length colEnd)])"
  then consider "p \<in> set placed" | "p = (r, length colEnd)" by auto
  then show "js_end_ms (fst p) \<le> (colEnd @ [js_end_ms r]) ! snd p"
  proof cases
    case 1 with cols_invD1[OF inv 1] cols_invD2[OF inv 1] show ?thesis by (simp add: nth_append)
  next
    case 2 then show ?thesis by simp
  qed
next
  fix c assume c: "c < length (colEnd @ [js_end_ms r])"
  show "\<exists>p\<in>set (placed @ [(r, length colEnd)]). snd p = c \<and> js_end_ms (fst p) = (colEnd @ [js_end_ms r]) ! c"
  proof (cases "c < length colEnd")
    case True
    with cols_invD3[OF inv] obtain p where "p \<in> set placed" "snd p = c" "js_end_ms (fst p) = colEnd ! c"
      by blast
    with True show ?thesis by (auto simp: nth_append)
  next
    case False
    with c have "c = length colEnd" by simp
    then show ?thesis by simp
  qed
next
  fix t
  have d: "distinct (map snd (filter (\<lambda>p. open_in (fst p) t) placed))"
    using inv by (rule cols_invD4)
  have "length colEnd \<notin> snd ` set placed"
  proof
    assume "length colEnd \<in> snd ` set placed"
    then obtain p where "p \<in> set placed" "snd p = length colEnd" by auto
    with cols_invD1[OF inv this(1)] show False by simp
  qed
  then have "length colEnd \<notin> set (map snd (filter (\<lambda>p. open_in (fst p) t) placed))" by auto
  with d show "distinct (map snd (filter (\<lambda>p. open_in (fst p) t) (placed @ [(r, length colEnd)])))"
    by simp
qed

lemma cols_inv_reuse:
  assumes inv: "cols_inv colEnd placed" and i: "i < length colEnd" and free: "colEnd ! i < js_start_ms r"
  shows "cols_inv (colEnd[i := max (colEnd ! i) (js_end_ms r)]) (placed @ [(r, i)])"
  unfolding cols_inv_def
proof (intro conjI ballI allI impI)
  fix p assume "p \<in> set (placed @ [(r, i)])"
  then consider "p \<in> set placed" | "p = (r, i)" by auto
  then show "snd p < length (colEnd[i := max (colEnd ! i) (js_end_ms r)])"
  proof cases
    case 1 with cols_invD1[OF inv] show ?thesis by simp
  next
    case 2 with i show ?thesis by simp
  qed
next
  fix p assume "p \<in> set (placed @ [(r, i)])"
  then consider "p \<in> set placed" | "p = (r, i)" by auto
  then show "js_end_ms (fst p) \<le> colEnd[i := max (colEnd ! i) (js_end_ms r)] ! snd p"
  proof cases
    case 1
    from cols_invD1[OF inv 1] cols_invD2[OF inv 1] show ?thesis
      by (cases "snd p = i") (simp_all add: i)
  next
    case 2 with i show ?thesis by simp
  qed
next
  fix c assume c: "c < length (colEnd[i := max (colEnd ! i) (js_end_ms r)])"
  then have c': "c < length colEnd" by simp
  from cols_invD3[OF inv c'] obtain p where p: "p \<in> set placed" "snd p = c" "js_end_ms (fst p) = colEnd ! c"
    by blast
  show "\<exists>p\<in>set (placed @ [(r, i)]). snd p = c \<and> js_end_ms (fst p) = colEnd[i := max (colEnd ! i) (js_end_ms r)] ! c"
  proof (cases "c = i")
    case False
    with p c' show ?thesis by auto
  next
    case True
    show ?thesis
    proof (cases "colEnd ! i \<le> js_end_ms r")
      case True
      with \<open>c = i\<close> i show ?thesis by (simp add: max_def)
    next
      case False
      with \<open>c = i\<close> i p show ?thesis by (auto simp: max_def)
    qed
  qed
next
  fix t
  have d: "distinct (map snd (filter (\<lambda>p. open_in (fst p) t) placed))"
    using inv by (rule cols_invD4)
  show "distinct (map snd (filter (\<lambda>p. open_in (fst p) t) (placed @ [(r, i)])))"
  proof (cases "open_in r t")
    case False
    with d show ?thesis by simp
  next
    case True
    have "i \<notin> set (map snd (filter (\<lambda>p. open_in (fst p) t) placed))"
    proof
      assume "i \<in> set (map snd (filter (\<lambda>p. open_in (fst p) t) placed))"
      then obtain p where p: "p \<in> set placed" "open_in (fst p) t" "snd p = i" by auto
      from cols_invD2[OF inv p(1)] p(3) have "js_end_ms (fst p) \<le> colEnd ! i" by simp
      with free have "js_end_ms (fst p) < js_start_ms r" by simp
      with p(2) True show False by (simp add: open_in_def)
    qed
    with d True show ?thesis by simp
  qed
qed

lemma assign_column_cases:
  "(first_free (js_start_ms r) colEnd = None \<and>
      assign_column r (colEnd, placed) = (colEnd @ [js_end_ms r], placed @ [(r, length colEnd)])) \<or>
   (\<exists>i. first_free (js_start_ms r) colEnd = Some i \<and> i < length colEnd \<and> colEnd ! i < js_start_ms r \<and>
      assign_column r (colEnd, placed) = (colEnd[i := max (colEnd ! i) (js_end_ms r)], placed @ [(r, i)]))"
proof (cases "first_free (js_start_ms r) colEnd")
  case None
  then show ?thesis by (simp add: assign_column_def)
next
  case (Some i)
  from first_free_Some[OF Some] Some show ?thesis by (simp add: assign_column_def)
qed

lemma cols_inv_step:
  assumes "cols_inv colEnd placed"
  shows "cols_inv (fst (assign_column r (colEnd, placed))) (snd (assign_column r (colEnd, placed)))"
  using assign_column_cases[of r colEnd placed]
proof (elim disjE exE conjE)
  assume "assign_column r (colEnd, placed) = (colEnd @ [js_end_ms r], placed @ [(r, length colEnd)])"
  with cols_inv_new[OF assms, of r] show ?thesis by simp
next
  fix i assume "i < length colEnd" "colEnd ! i < js_start_ms r"
    "assign_column r (colEnd, placed) = (colEnd[i := max (colEnd ! i) (js_end_ms r)], placed @ [(r, i)])"
  with cols_inv_reuse[OF assms this(1,2)] show ?thesis by simp
qed

lemma map_fst_assign:
  "map fst (snd (assign_column r (colEnd, placed))) = map fst placed @ [r]"
  using assign_column_cases[of r colEnd placed] by auto

lemma open_at_snoc: "open_at (xs @ [r]) t = open_at xs t + (if open_in r t then 1 else 0)"
  by (simp add: open_at_eq)

lemma open_at_placed:
  "open_at (map fst placed) t = length (filter (\<lambda>p. open_in (fst p) t) placed)"
  by (simp add: open_at_eq filter_map comp_def)

lemma open_at_le_cols:
  assumes inv: "cols_inv colEnd placed"
  shows "open_at (map fst placed) t \<le> length colEnd"
proof -
  let ?F = "filter (\<lambda>p. open_in (fst p) t) placed"
  have "distinct (map snd ?F)" using inv by (rule cols_invD4)
  then have "card (set (map snd ?F)) = length (map snd ?F)" by (rule distinct_card)
  then have "length ?F = card (set (map snd ?F))" by (simp only: length_map)
  also have "set (map snd ?F) \<subseteq> {0..<length colEnd}"
    using cols_invD1[OF inv] by auto
  then have "card (set (map snd ?F)) \<le> card {0..<length colEnd}" by (intro card_mono) simp_all
  finally show ?thesis by (simp add: open_at_placed)
qed

lemma cols_le_open_at_new:
  assumes inv: "cols_inv colEnd placed"
      and free: "first_free (js_start_ms r) colEnd = None"
      and asc: "\<forall>p\<in>set placed. js_start_ms (fst p) \<le> js_start_ms r"
  shows "length colEnd \<le> open_at (map fst placed) (js_start_ms r)"
proof -
  let ?F = "filter (\<lambda>p. open_in (fst p) (js_start_ms r)) placed"
  have "{0..<length colEnd} \<subseteq> snd ` set ?F"
  proof
    fix c assume "c \<in> {0..<length colEnd}"
    then have c: "c < length colEnd" by simp
    from cols_invD3[OF inv c] obtain p where p: "p \<in> set placed" "snd p = c" "js_end_ms (fst p) = colEnd ! c"
      by blast
    have "js_start_ms r \<le> colEnd ! c" using free c by (rule first_free_None)
    moreover have "js_start_ms (fst p) \<le> js_start_ms r" using asc p(1) by simp
    ultimately have "open_in (fst p) (js_start_ms r)" using p(3) by (simp add: open_in_def)
    with p(1) have "p \<in> set ?F" by simp
    with p(2) show "c \<in> snd ` set ?F" by (metis imageI)
  qed
  then have "card {0..<length colEnd} \<le> card (snd ` set ?F)" by (intro card_mono) simp_all
  also have "\<dots> \<le> card (set ?F)" by (intro card_image_le) simp
  also have "\<dots> \<le> length ?F" by (rule card_length)
  finally show ?thesis by (simp add: open_at_placed)
qed

lemma reached_step:
  assumes inv: "cols_inv colEnd placed" and re: "reached colEnd placed"
      and wf: "js_start_ms r \<le> js_end_ms r"
      and asc: "\<forall>p\<in>set placed. js_start_ms (fst p) \<le> js_start_ms r"
  shows "reached (fst (assign_column r (colEnd, placed))) (snd (assign_column r (colEnd, placed)))"
  using assign_column_cases[of r colEnd placed]
proof (elim disjE exE conjE)
  assume free: "first_free (js_start_ms r) colEnd = None"
     and a: "assign_column r (colEnd, placed) = (colEnd @ [js_end_ms r], placed @ [(r, length colEnd)])"
  have "length colEnd \<le> open_at (map fst placed) (js_start_ms r)"
    using inv free asc by (rule cols_le_open_at_new)
  moreover have "open_in r (js_start_ms r)" using wf by (simp add: open_in_def)
  ultimately have "length (colEnd @ [js_end_ms r]) \<le> open_at (map fst (placed @ [(r, length colEnd)])) (js_start_ms r)"
    by (simp add: open_at_snoc)
  then show ?thesis unfolding a reached_def by (intro disjI2 exI[of _ "js_start_ms r"]) simp
next
  fix i assume i: "i < length colEnd"
    and a: "assign_column r (colEnd, placed) = (colEnd[i := max (colEnd ! i) (js_end_ms r)], placed @ [(r, i)])"
  from i re obtain t where "length colEnd \<le> open_at (map fst placed) t"
    by (auto simp: reached_def)
  then have "length (colEnd[i := max (colEnd ! i) (js_end_ms r)]) \<le> open_at (map fst (placed @ [(r, i)])) t"
    by (simp add: open_at_snoc)
  then show ?thesis unfolding a reached_def by (intro disjI2 exI[of _ t]) simp
qed

lemma assign_fold:
  assumes "cols_inv colEnd placed" "reached colEnd placed"
      and "\<forall>r\<in>set xs. js_start_ms r \<le> js_end_ms r"
      and "sorted_wrt starts_le xs"
      and "\<forall>p\<in>set placed. \<forall>x\<in>set xs. js_start_ms (fst p) \<le> js_start_ms x"
  shows "cols_inv (fst (fold assign_column xs (colEnd, placed))) (snd (fold assign_column xs (colEnd, placed)))
       \<and> reached (fst (fold assign_column xs (colEnd, placed))) (snd (fold assign_column xs (colEnd, placed)))
       \<and> map fst (snd (fold assign_column xs (colEnd, placed))) = map fst placed @ xs"
  using assms
proof (induction xs arbitrary: colEnd placed)
  case Nil
  then show ?case by simp
next
  case (Cons r xs)
  let ?st = "assign_column r (colEnd, placed)"
  have asc: "\<forall>p\<in>set placed. js_start_ms (fst p) \<le> js_start_ms r" using Cons.prems(5) by simp
  have wf: "js_start_ms r \<le> js_end_ms r" using Cons.prems(3) by simp
  have 1: "cols_inv (fst ?st) (snd ?st)" using Cons.prems(1) by (rule cols_inv_step)
  have 2: "reached (fst ?st) (snd ?st)" using Cons.prems(1,2) wf asc by (rule reached_step)
  have m: "map fst (snd ?st) = map fst placed @ [r]" by (rule map_fst_assign)
  have 3: "\<forall>r\<in>set xs. js_start_ms r \<le> js_end_ms r" using Cons.prems(3) by simp
  have 4: "sorted_wrt starts_le xs" using Cons.prems(4) by simp
  have 5: "\<forall>p\<in>set (snd ?st). \<forall>x\<in>set xs. js_start_ms (fst p) \<le> js_start_ms x"
  proof (intro ballI)
    fix p x assume p: "p \<in> set (snd ?st)" and x: "x \<in> set xs"
    from p have "fst p \<in> set (map fst (snd ?st))" by simp
    then have "fst p \<in> set (map fst placed) \<or> fst p = r" unfolding m by auto
    then show "js_start_ms (fst p) \<le> js_start_ms x"
    proof
      assume "fst p \<in> set (map fst placed)"
      then obtain q where "q \<in> set placed" "fst q = fst p" by auto
      with Cons.prems(5) x show ?thesis by (metis list.set_intros(2))
    next
      assume "fst p = r"
      moreover have "starts_le r x" using Cons.prems(4) x by simp
      ultimately show ?thesis by (simp add: starts_le_def)
    qed
  qed
  from Cons.IH[OF 1 2 3 4 5] m show ?case by (simp add: prod.collapse)
qed

lemma sorted_ranges_starts: "sorted_wrt starts_le (sort_key ranges_key ranges)"
proof -
  have "sorted (map ranges_key (sort_key ranges_key ranges))" by simp
  then have "sorted_wrt (\<lambda>a b. ranges_key a \<le> ranges_key b) (sort_key ranges_key ranges)"
    by (simp only: sorted_map)
  then show ?thesis
    by (rule sorted_wrt_mono_rel[rotated]) (auto simp: starts_le_def ranges_key_def)
qed

lemma open_at_sort_key: "open_at (sort_key k ranges) t = open_at ranges t"
proof -
  have "mset (filter (\<lambda>r. open_in r t) (sort_key k ranges)) = mset (filter (\<lambda>r. open_in r t) ranges)"
    by simp
  then have "length (filter (\<lambda>r. open_in r t) (sort_key k ranges)) = length (filter (\<lambda>r. open_in r t) ranges)"
    by (metis size_mset)
  then show ?thesis by (simp only: open_at_eq)
qed

lemma wrap_columns_bounds:
  assumes "\<forall>r\<in>set ranges. js_start_ms r \<le> js_end_ms r"
  shows "(\<forall>t. open_at ranges t \<le> length (fst (wrap_columns ranges))) \<and>
         (\<exists>t. open_at ranges t = length (fst (wrap_columns ranges)))"
proof -
  let ?xs = "sort_key ranges_key ranges"
  let ?ce = "fst (wrap_columns ranges)" and ?pl = "snd (wrap_columns ranges)"
  have i0: "cols_inv [] []" by (simp add: cols_inv_def)
  have r0: "reached [] []" by (simp add: reached_def)
  have wf: "\<forall>r\<in>set ?xs. js_start_ms r \<le> js_end_ms r" using assms by simp
  have a0: "\<forall>p\<in>set ([] :: (js_event \<times> nat) list). \<forall>x\<in>set ?xs. js_start_ms (fst p) \<le> js_start_ms x" by simp
  from assign_fold[OF i0 r0 wf sorted_ranges_starts a0]
  have inv: "cols_inv ?ce ?pl" and re: "reached ?ce ?pl" and m: "map fst ?pl = ?xs"
    by (simp_all add: wrap_columns_def)
  have ub: "open_at ranges t \<le> length ?ce" for t
    using open_at_le_cols[OF inv, of t] unfolding m open_at_sort_key .
  have "\<exists>t. length ?ce \<le> open_at ranges t"
  proof (cases "?ce = []")
    case True then show ?thesis by simp
  next
    case False
    with re obtain t where "length ?ce \<le> open_at (map fst ?pl) t" by (auto simp: reached_def)
    then show ?thesis unfolding m open_at_sort_key by blast
  qed
  then obtain t where "length ?ce \<le> open_at ranges t" ..
  with ub[of t] have "open_at ranges t = length ?ce" by simp
  with ub show ?thesis by blast
qed

lemma fold_max_ge_init: "(a::nat) \<le> fold max xs a"
proof (induction xs arbitrary: a)
  case Nil show ?case by simp
next
  case (Cons y ys)
  have "a \<le> max y a" by simp
  also have "\<dots> \<le> fold max ys (max y a)" by (rule Cons.IH)
  finally show ?case by simp
qed

lemma fold_max_ge_mem: "(x::nat) \<in> set xs \<Longrightarrow> x \<le> fold max xs a"
proof (induction xs arbitrary: a)
  case Nil then show ?case by simp
next
  case (Cons y ys)
  show ?case
  proof (cases "x = y")
    case True
    have "x \<le> max y a" using True by simp
    also have "\<dots> \<le> fold max ys (max y a)" by (rule fold_max_ge_init)
    finally show ?thesis by simp
  next
    case False
    with Cons.prems have "x \<in> set ys" by simp
    from Cons.IH[OF this] show ?thesis by simp
  qed
qed

lemma fold_max_in: "fold max xs (a::nat) = a \<or> fold max xs a \<in> set xs"
proof (induction xs arbitrary: a)
  case Nil show ?case by simp
next
  case (Cons y ys)
  from Cons.IH[of "max y a"] show ?case by (auto simp: max_def split: if_splits)
qed

lemma length_filter_mono:
  "(\<And>x. x \<in> set xs \<Longrightarrow> P x \<Longrightarrow> Q x) \<Longrightarrow> length (filter P xs) \<le> length (filter Q xs)"
  by (induction xs) auto

lemma max_open_ge: "open_at ranges t \<le> max_open ranges"
proof (cases "filter (\<lambda>r. open_in r t) ranges = []")
  case True
  then show ?thesis by (simp add: open_at_eq)
next
  case False
  let ?S = "{r \<in> set ranges. open_in r t}"
  have ne: "js_start_ms ` ?S \<noteq> {}" using False by (auto simp: filter_empty_conv)
  have fin: "finite (js_start_ms ` ?S)" by simp
  from Max_in[OF fin ne] obtain r :: js_event where r: "r \<in> set ranges" "open_in r t"
    "js_start_ms r = Max (js_start_ms ` ?S)" by auto
  have le: "js_start_ms x \<le> js_start_ms r" if "x \<in> set ranges" "open_in x t" for x
    unfolding r(3) using that by (intro Max_ge[OF fin]) auto
  have "open_at ranges t \<le> open_at ranges (js_start_ms r)"
    unfolding open_at_eq
  proof (rule length_filter_mono)
    fix x assume x: "x \<in> set ranges" "open_in x t"
    from le[OF x] x(2) r(2) show "open_in x (js_start_ms r)" by (simp add: open_in_def)
  qed
  also have "\<dots> \<le> max_open ranges"
    unfolding max_open_def using r(1) by (intro fold_max_ge_mem) auto
  finally show ?thesis .
qed

lemma max_open_attained: "\<exists>t. open_at ranges t = max_open ranges"
proof -
  from fold_max_in[of "map (\<lambda>r. open_at ranges (js_start_ms r)) ranges" 0]
  have "max_open ranges = 0 \<or> max_open ranges \<in> set (map (\<lambda>r. open_at ranges (js_start_ms r)) ranges)"
    by (simp only: max_open_def)
  then show ?thesis
  proof
    assume z: "max_open ranges = 0"
    have "open_at ranges 0 \<le> max_open ranges" by (rule max_open_ge)
    with z show ?thesis by (intro exI[of _ 0]) simp
  next
    assume "max_open ranges \<in> set (map (\<lambda>r. open_at ranges (js_start_ms r)) ranges)"
    then obtain r :: js_event where "max_open ranges = open_at ranges (js_start_ms r)" by auto
    then show ?thesis by (intro exI[of _ "js_start_ms r"]) simp
  qed
qed

lemma timestamp_ms_mono:
  assumes "timestamp_ms s = Inr a" "timestamp_ms t = Inr b" "s \<le> t"
  shows "a \<le> b"
proof -
  from assms(1) have a: "a = ((s - 719162 * microseconds_per_day) * 1000) div 1000000"
    by (simp add: timestamp_ms_def Let_def split: if_splits)
  from assms(2) have b: "b = ((t - 719162 * microseconds_per_day) * 1000) div 1000000"
    by (simp add: timestamp_ms_def Let_def split: if_splits)
  from assms(3) show ?thesis unfolding a b by (intro zdiv_mono1) simp_all
qed

lemma payload_event_wf:
  assumes "end_not_before_start e" "start_dt e \<noteq> None" "payload_event e = Inr p"
  shows "js_start_ms p \<le> js_end_ms p"
proof -
  from assms(2) obtain s where s: "start_dt e = Some s" by auto
  from assms(3) s obtain a where a: "timestamp_ms s = Inr a" and pa: "js_start_ms p = a"
    by (auto simp: payload_event_def split: sum.splits)
  show ?thesis
  proof (cases "end_dt e")
    case None
    with assms(3) s a have "js_end_ms p = a"
      by (auto simp: payload_event_def split: sum.splits)
    with pa show ?thesis by simp
  next
    case (Some t)
    with assms(3) s a obtain b where b: "timestamp_ms t = Inr b" and pb: "js_end_ms p = b"
      by (auto simp: payload_event_def split: sum.splits)
    from assms(1) s Some have "s \<le> t" by (simp add: end_not_before_start_def)
    from timestamp_ms_mono[OF a b this] pa pb show ?thesis by simp
  qed
qed

lemma payload_loop_wf:
  assumes "\<forall>e\<in>set es. end_not_before_start e" "payload_loop es = Inr ps"
  shows "\<forall>p\<in>set ps. js_start_ms p \<le> js_end_ms p"
  using assms
proof (induction es arbitrary: ps)
  case Nil
  then show ?case by simp
next
  case (Cons e es)
  have wf: "end_not_before_start e" and wfs: "\<forall>e\<in>set es. end_not_before_start e"
    using Cons.prems(1) by simp_all
  show ?case
  proof (cases "start_dt e = None")
    case True
    with Cons.prems(2) have "payload_loop es = Inr ps" by simp
    from Cons.IH[OF wfs this] show ?thesis .
  next
    case False
    with Cons.prems(2) obtain p qs where p: "payload_event e = Inr p"
      and q: "payload_loop es = Inr qs" and ps: "ps = p # qs"
      by (auto split: sum.splits)
    from payload_event_wf[OF wf False p] Cons.IH[OF wfs q] ps show ?thesis by simp
  qed
qed

lemma events_payload_overnight:
  "events_payload overnight_rows =
     Inr [\<lparr> js_id = ''0'', js_entities = [''A''], js_start_ms = 1714039200000,
        js_end_ms = 1714021200000, js_is_range = True \<rparr>]"
  by (simp add: overnight_rows_def payload_eval str_nat_digits)

lemma events_payload_nested:
  "events_payload nested_rows =
     Inr [\<lparr> js_id = ''0'', js_entities = [''A''], js_start_ms = 1714035600000,
        js_end_ms = 1714039200000, js_is_range = True \<rparr>,
      \<lparr> js_id = ''1'', js_entities = [''A''], js_start_ms = 1714037400000,
        js_end_ms = 1714046400000, js_is_range = True \<rparr>,
      \<lparr> js_id = ''2'', js_entities = [''A''], js_start_ms = 1714042800000,
        js_end_ms = 1714042800000, js_is_range = False \<rparr>]"
  by (simp add: nested_rows_def payload_eval str_nat_digits)

lemma nested_payload_ranges:
  "filter js_is_range (sorted_evs nested_payload) =
     [\<lparr> js_id = ''0'', js_entities = [''A''], js_start_ms = 1714035600000,
        js_end_ms = 1714039200000, js_is_range = True \<rparr>,
      \<lparr> js_id = ''1'', js_entities = [''A''], js_start_ms = 1714037400000,
        js_end_ms = 1714046400000, js_is_range = True \<rparr>]"
  by (simp add: nested_payload_def events_payload_nested sorted_evs_def evs_key_def)

text \<open>
  The count of the greedy assignment on ranges whose end is not before their start: the
  number of wrapper columns equals the maximum number of ranges open at one instant; no
  instant has more open ranges than there are columns, and some instant has exactly that
  many.
\<close>

theorem wrapper_columns_equal_max_open:
  assumes "\<forall>r\<in>set ranges. js_start_ms r \<le> js_end_ms r"
  shows "length (fst (wrap_columns ranges)) = max_open ranges \<and>
         (\<forall>t. open_at ranges t \<le> length (fst (wrap_columns ranges))) \<and>
         (\<exists>t. open_at ranges t = length (fst (wrap_columns ranges)))"
proof -
  from wrap_columns_bounds[OF assms]
  have ub: "\<forall>t. open_at ranges t \<le> length (fst (wrap_columns ranges))"
   and at: "\<exists>t. open_at ranges t = length (fst (wrap_columns ranges))" by simp_all
  from at obtain t where "open_at ranges t = length (fst (wrap_columns ranges))" ..
  with max_open_ge[of ranges t] have 1: "length (fst (wrap_columns ranges)) \<le> max_open ranges" by simp
  from max_open_attained obtain u where "open_at ranges u = max_open ranges" ..
  with ub[rule_format, of u] have 2: "max_open ranges \<le> length (fst (wrap_columns ranges))" by simp
  from 1 2 ub at show ?thesis by simp
qed

theorem wrapper_columns_of_nested_rows:
  "events_payload nested_rows = Inr nested_payload \<and>
   length (fst (wrap_columns (filter js_is_range (sorted_evs nested_payload)))) = 2 \<and>
   open_at (filter js_is_range (sorted_evs nested_payload)) 1714037400000 = 2"
proof -
  let ?R = "filter js_is_range (sorted_evs nested_payload)"
  have ep: "events_payload nested_rows = Inr nested_payload"
    by (simp add: nested_payload_def events_payload_nested)
  have wf: "\<forall>r\<in>set ?R. js_start_ms r \<le> js_end_ms r"
    unfolding nested_payload_ranges by simp
  have m: "max_open ?R = 2"
    unfolding nested_payload_ranges by (simp add: max_open_def open_at_def)
  have o: "open_at ?R 1714037400000 = 2"
    unfolding nested_payload_ranges by (simp add: open_at_def)
  from wrapper_columns_equal_max_open[OF wf] m o ep show ?thesis by simp
qed

text \<open>
  The events that \<open>read_events_from_excel\<close> returns have been normalised, so the payload
  built from them holds no range that ends before it starts, and the number of wrapper
  columns of its ranges is the maximum number of ranges open at one instant.
\<close>

theorem wrapper_columns_of_normalised_events:
  assumes "\<forall>row\<in>set rows. valid_times row"
      and "read_events_from_excel rows = Inr events" "payload_loop events = Inr payload"
  shows "length (fst (wrap_columns (filter js_is_range (sorted_evs payload))))
         = max_open (filter js_is_range (sorted_evs payload))"
proof -
  from read_events_wf[OF assms(1,2)] assms(3)
  have "\<forall>p\<in>set payload. js_start_ms p \<le> js_end_ms p" by (rule payload_loop_wf)
  then have "\<forall>r\<in>set (filter js_is_range (sorted_evs payload)). js_start_ms r \<le> js_end_ms r"
    by (simp add: sorted_evs_def)
  from wrapper_columns_equal_max_open[OF this] show ?thesis by simp
qed

text \<open>
  Claim C4. The number of wrapper columns of the vertical layout is not always the maximum
  number of ranges open at one instant. \<open>generate_vertical_timeline\<close> reads the rows
  itself and leaves out the call of \<open>normalize_end_dt\<close> that \<open>read_events_from_excel\<close>
  makes: the row of \<open>overnight_rows\<close>, from 10:00 to 05:00 on one date, reaches the
  layout as a range that ends five hours before it starts. The greedy assignment opens one
  wrapper column for it, although no instant lies in its interval and the maximum number of
  open ranges is 0. Read by \<open>read_events_from_excel\<close>, the same row ends at 05:00 of the
  next day, and its payload has one column and one range open at a time.
\<close>

theorem wrapper_column_for_inverted_range:
  "events_payload overnight_rows = Inr overnight_payload \<and>
   map (\<lambda>r. (js_start_ms r, js_end_ms r, js_is_range r)) overnight_payload
     = [(1714039200000, 1714021200000, True)] \<and>
   length (fst (wrap_columns (filter js_is_range (sorted_evs overnight_payload)))) = 1 \<and>
   max_open (filter js_is_range (sorted_evs overnight_payload)) = 0 \<and>
   read_events_from_excel overnight_rows = Inr overnight_events \<and>
   map (\<lambda>r. (js_start_ms r, js_end_ms r, js_is_range r)) (projr (payload_loop overnight_events))
     = [(1714039200000, 1714107600000, True)] \<and>
   length (fst (wrap_columns (filter js_is_range (sorted_evs (projr (payload_loop overnight_events)))))) = 1 \<and>
   max_open (filter js_is_range (sorted_evs (projr (payload_loop overnight_events)))) = 1"
proof -
  have v: "overnight_payload =
     [\<lparr> js_id = ''0'', js_entities = [''A''], js_start_ms = 1714039200000,
        js_end_ms = 1714021200000, js_is_range = True \<rparr>]"
    by (simp add: overnight_payload_def events_payload_overnight)
  have r: "read_events_from_excel overnight_rows = Inr overnight_events"
    by (simp add: overnight_events_def overnight_rows_def read_eval)
  have n: "projr (payload_loop overnight_events) =
     [\<lparr> js_id = ''0'', js_entities = [''A''], js_start_ms = 1714039200000,
        js_end_ms = 1714107600000, js_is_range = True \<rparr>]"
    by (simp add: overnight_events_def overnight_rows_def read_eval payload_event_def
        timestamp_ms_def is_range_def str_nat_digits)
  have 1: "events_payload overnight_rows = Inr overnight_payload"
    by (simp add: events_payload_overnight v)
  have 2: "map (\<lambda>r. (js_start_ms r, js_end_ms r, js_is_range r)) overnight_payload
     = [(1714039200000, 1714021200000, True)]"
    unfolding v by simp
  have 3: "length (fst (wrap_columns (filter js_is_range (sorted_evs overnight_payload)))) = 1"
    unfolding v by (simp add: sorted_evs_def wrap_columns_def assign_column_def)
  have 4: "max_open (filter js_is_range (sorted_evs overnight_payload)) = 0"
    unfolding v by (simp add: sorted_evs_def max_open_def open_at_def)
  have 5: "map (\<lambda>r. (js_start_ms r, js_end_ms r, js_is_range r)) (projr (payload_loop overnight_events))
     = [(1714039200000, 1714107600000, True)]"
    unfolding n by simp
  have 6: "length (fst (wrap_columns (filter js_is_range (sorted_evs (projr (payload_loop overnight_events)))))) = 1"
    unfolding n by (simp add: sorted_evs_def wrap_columns_def assign_column_def)
  have 7: "max_open (filter js_is_range (sorted_evs (projr (payload_loop overnight_events)))) = 1"
    unfolding n by (simp add: sorted_evs_def max_open_def open_at_def)
  from 1 2 3 4 r 5 6 7 show ?thesis by (intro conjI)
qed

end
